theory Spec2Isabelle
  imports Main "HOL-Library.Sublist" "HOL-Library.Multiset"
begin

section \<open>Python values used by \<open>tor_scraper.py\<close>\<close>

text \<open>
  The module is Python 2 (\<open>import Queue\<close>): \<open>str\<close> is a byte string, so URLs, log
  messages and response bodies are all \<open>string\<close> here. Python's \<open>None\<close> is \<open>None\<close> of an
  option type. Exceptions are values: a function that can raise returns an \<open>exn\<close>.
\<close>

datatype curl_error = Curl_error int string

datatype exn =
    KeyError string
  | TypeError
  | IndexError
  | OSError
  | Setopt_error string
  | Handler_exn string

subsection \<open>\<open>str(index)\<close> on integers\<close>

text \<open>
  \<open>str\<close> of an integer is its decimal numeral, with a minus sign when negative.
\<close>

definition digit :: "nat \<Rightarrow> char" where
  "digit d = ''0123456789'' ! d"

fun str_nat :: "nat \<Rightarrow> string" where
  "str_nat n = (if n < 10 then [digit n] else str_nat (n div 10) @ [digit (n mod 10)])"

declare str_nat.simps [simp del]

definition str_int :: "int \<Rightarrow> string" where
  "str_int i = (if i < 0 then CHR ''-'' # str_nat (nat (- i)) else str_nat (nat i))"

text \<open>Reading a decimal numeral back; used only to state that \<open>str\<close> loses nothing.\<close>

definition digit_val :: "char \<Rightarrow> nat" where
  "digit_val c = length (takeWhile (\<lambda>d. d \<noteq> c) ''0123456789'')"

definition nat_of_str :: "string \<Rightarrow> nat" where
  "nat_of_str s = foldl (\<lambda>a c. 10 * a + digit_val c) 0 s"

definition int_of_str :: "string \<Rightarrow> int" where
  "int_of_str s = (case s of
      [] \<Rightarrow> 0
    | c # cs \<Rightarrow> if c = CHR ''-'' then - int (nat_of_str cs) else int (nat_of_str (c # cs)))"

subsection \<open>\<open>sub in line\<close> and \<open>line.rsplit(sep, 1)\<close>\<close>

text \<open>
  \<open>sub in line\<close> is \<^const>\<open>sublist\<close> (a contiguous run). \<open>rsplit(sep, 1)\<close> cuts the line at
  the rightmost occurrence of a non-empty separator and gives the two pieces, or the
  whole line alone when the separator does not occur.
\<close>

fun rfind :: "string \<Rightarrow> string \<Rightarrow> nat option" where
  "rfind sep [] = None"
| "rfind sep (c # cs) = (case rfind sep cs of
      Some k \<Rightarrow> Some (Suc k)
    | None \<Rightarrow> if prefix sep (c # cs) then Some 0 else None)"

definition rsplit1 :: "string \<Rightarrow> string \<Rightarrow> string list" where
  "rsplit1 sep line = (case rfind sep line of
      None \<Rightarrow> [line]
    | Some k \<Rightarrow> [take k line, drop (k + length sep) line])"

definition subscript :: "'a list \<Rightarrow> nat \<Rightarrow> exn + 'a" where
  "subscript xs i = (if i < length xs then Inr (xs ! i) else Inl IndexError)"

section \<open>The logger\<close>

text \<open>
  A \<open>logging\<close> call stores the level, the message and the arguments that \<open>%s\<close> will
  format; the logger is the list of records in call order.
\<close>

datatype level = DEBUG | INFO | ERROR

datatype 'c log_arg =
    Str string
  | Context "'c option"
  | Result "string option"
  | Exc curl_error

type_synonym 'c log_record = "level \<times> string \<times> 'c log_arg list"

section \<open>Scrape tasks and the queue\<close>

text \<open>
  A handler is a callable \<open>handler(url, context, result)\<close>. The scraper's own
  \<open>_default_handler\<close> is a constructor, so that it can be told apart; a caller's
  handler is a function that returns \<open>None\<close> when it returns and \<open>Some e\<close> when it raises
  \<open>e\<close>. What a caller's handler does besides returning or raising is outside the module;
  in particular a handler is taken not to enqueue further tasks.
\<close>

datatype 'c handler =
    Default_handler
  | User_handler "string \<Rightarrow> 'c option \<Rightarrow> string option \<Rightarrow> exn option"

record 'c scrape =
  url :: string
  scrape_context :: "'c option"
  handler :: "'c handler"

text \<open>
  \<open>Queue.Queue()\<close> is the standard library's unbounded FIFO: \<open>put\<close> appends at the tail,
  \<open>get(False)\<close> takes the head or raises \<open>Queue.Empty\<close> at once. Each call holds the
  queue's mutex, so each is one atomic step.
\<close>

datatype queue_empty = Empty

definition put :: "'a \<Rightarrow> 'a list \<Rightarrow> 'a list" where
  "put x q = q @ [x]"

definition get_nowait :: "'a list \<Rightarrow> queue_empty + 'a \<times> 'a list" where
  "get_nowait q = (case q of [] \<Rightarrow> Inl Empty | x # rest \<Rightarrow> Inr (x, rest))"

section \<open>The scraper object\<close>

record config =
  thread_count :: int
  socks_port_offset :: int
  control_port_offset :: int
  data_directory :: string
  tor_cmd :: string
  public_ip_url :: "string option"

text \<open>
  \<open>config\<close> is the dictionary given to the constructor. Every key is read with
  \<open>self._config[key]\<close>; \<open>public_ip_url\<close> is the one key the docstring calls optional, so
  it is the one field that may be absent (\<open>None\<close>).
\<close>

record torrc =
  SocksPort :: string
  ControlPort :: string
  DataDirectory :: string

text \<open>
  The object has the three attributes \<open>__init__\<close> sets. The other fields record what
  the scraper did, in call order: the calls of \<open>launch_tor_with_config\<close>, the process
  list of \<open>run\<close>, the \<open>kill()\<close> calls, and per worker index the tasks taken from the
  queue, the handler calls with their result argument, and the tasks on which \<open>_query\<close>
  raised, so that no handler was called. \<open>events\<close> is one list for the order in time of
  process starts, thread ends and kills.
\<close>

datatype event =
    Process_started nat
  | Thread_ended nat "exn option"
  | Process_killed nat

record 'c tor_scraper =
  config :: config
  logger :: "'c log_record list"
  scrape_queue :: "'c scrape list"
  launched :: "(string \<times> torrc) list"
  tor_processes :: "nat list"
  killed :: "nat list"
  dequeued :: "(nat \<times> 'c scrape) list"
  handled :: "(nat \<times> 'c scrape \<times> string option) list"
  aborted :: "(nat \<times> 'c scrape \<times> exn) list"
  events :: "event list"

definition TorScraper :: "config \<Rightarrow> 'c tor_scraper" where
  "TorScraper cfg = \<lparr>config = cfg, logger = [], scrape_queue = [], launched = [],
     tor_processes = [], killed = [], dequeued = [], handled = [], aborted = [], events = []\<rparr>"

definition add_scrape ::
  "string \<Rightarrow> 'c option \<Rightarrow> 'c handler option \<Rightarrow> 'c tor_scraper \<Rightarrow> 'c tor_scraper" where
  "add_scrape u ctx h s =
     (let h' = (case h of None \<Rightarrow> Default_handler | Some f \<Rightarrow> f)
      in s\<lparr>scrape_queue := put \<lparr>url = u, scrape_context = ctx, handler = h'\<rparr> (scrape_queue s)\<rparr>)"

section \<open>Logging callbacks and the fetch\<close>

definition default_handler ::
  "string \<Rightarrow> 'c option \<Rightarrow> string option \<Rightarrow> 'c log_record list \<Rightarrow> 'c log_record list" where
  "default_handler u ctx result lg =
     lg @ [(DEBUG, ''url: %s'', [Str u]),
           (DEBUG, ''context: %s'', [Context ctx]),
           (DEBUG, ''result: %s'', [Result result])]"

text \<open>
  \<open>pycurl\<close> is a parameter with two parts. \<open>setopt\<close> gives, for a URL and a proxy port,
  the exception raised by the calls before the \<open>try\<close> (the constructor \<open>pycurl.Curl()\<close>
  and the five \<open>setopt\<close> calls, of which two take the URL and the port), or \<open>None\<close> when
  they all return; pycurl raises there for a URL with a NUL byte and for a port that
  libcurl refuses. \<open>perform\<close> is \<open>curl.perform()\<close>: the body written to \<open>output\<close> or the
  \<open>pycurl.error\<close> raised. Only \<open>perform()\<close> is inside the \<open>try\<close>, so an exception of the
  calls before it leaves \<open>_query\<close>.
\<close>

type_synonym transport = "string \<Rightarrow> int \<Rightarrow> curl_error + string"

record curl =
  setopt :: "string \<Rightarrow> int \<Rightarrow> exn option"
  perform :: transport

definition query ::
  "curl \<Rightarrow> string \<Rightarrow> int \<Rightarrow> 'c log_record list
     \<Rightarrow> (exn + string option) \<times> 'c log_record list" where
  "query curl u socks_port lg = (case setopt curl u socks_port of
      Some e \<Rightarrow> (Inl e, lg)
    | None \<Rightarrow> (case perform curl u socks_port of
        Inr body \<Rightarrow> (Inr (Some body), lg)
      | Inl exc \<Rightarrow> (Inr None, lg @ [(ERROR, ''Unable to reach %s (%s)'', [Str u, Exc exc])])))"

definition tor_init_msg_handler ::
  "string \<Rightarrow> 'c log_record list \<Rightarrow> exn + 'c log_record list" where
  "tor_init_msg_handler line lg =
     (if sublist ''Bootstrapped '' line
      then (case subscript (rsplit1 ''[notice] '' line) 1 of
              Inl e \<Rightarrow> Inl e
            | Inr msg \<Rightarrow> Inr (lg @ [(INFO, msg, [])]))
      else Inr lg)"

section \<open>Starting the Tor processes\<close>

text \<open>
  \<open>stem.process.launch_tor_with_config\<close> is a parameter: for the command and the
  configuration it gives the lines the process printed while starting, each of which
  stem passes to \<open>init_msg_handler\<close>, and whether the process came up (\<open>False\<close>: stem
  raises \<open>OSError\<close>). An exception of the message handler leaves the launch call too.
\<close>

type_synonym launcher = "string \<Rightarrow> torrc \<Rightarrow> string list \<times> bool"

fun init_msgs :: "string list \<Rightarrow> 'c log_record list \<Rightarrow> exn option \<times> 'c log_record list" where
  "init_msgs [] lg = (None, lg)"
| "init_msgs (line # rest) lg = (case tor_init_msg_handler line lg of
      Inl e \<Rightarrow> (Some e, lg)
    | Inr lg' \<Rightarrow> init_msgs rest lg')"

definition torrc_of :: "config \<Rightarrow> nat \<Rightarrow> torrc" where
  "torrc_of cfg index =
     \<lparr>SocksPort = str_int (socks_port_offset cfg + int index),
      ControlPort = str_int (control_port_offset cfg + int index),
      DataDirectory = data_directory cfg @ str_int (int index)\<rparr>"

text \<open>One pass of the first loop of \<open>run\<close>: the launch, then the public IP line.\<close>

definition start_tor_process ::
  "launcher \<Rightarrow> curl \<Rightarrow> nat \<Rightarrow> 'c tor_scraper \<Rightarrow> exn option \<times> 'c tor_scraper" where
  "start_tor_process launch curl index s =
     (let cfg = config s;
          s1 = s\<lparr>launched := launched s @ [(tor_cmd cfg, torrc_of cfg index)]\<rparr>;
          started = launch (tor_cmd cfg) (torrc_of cfg index)
      in case init_msgs (fst started) (logger s1) of
           (Some e, lg) \<Rightarrow> (Some e, s1\<lparr>logger := lg\<rparr>)
         | (None, lg) \<Rightarrow>
             if \<not> snd started then (Some OSError, s1\<lparr>logger := lg\<rparr>)
             else
               let s2 = s1\<lparr>logger := lg, tor_processes := tor_processes s1 @ [index],
                           events := events s1 @ [Process_started index]\<rparr>
               in case public_ip_url cfg of
                    None \<Rightarrow> (Some (KeyError ''public_ip_url''), s2)
                  | Some u \<Rightarrow>
                      if u \<noteq> []
                      then (case query curl u (socks_port_offset cfg + int index) (logger s2) of
                              (Inl e, lg') \<Rightarrow> (Some e, s2\<lparr>logger := lg'\<rparr>)
                            | (Inr None, lg') \<Rightarrow> (Some TypeError, s2\<lparr>logger := lg'\<rparr>)
                            | (Inr (Some body), lg') \<Rightarrow>
                                (None, s2\<lparr>logger := lg' @ [(INFO, ''Public IP: '' @ body, [])]\<rparr>))
                      else (None, s2))"

fun start_tor_processes ::
  "launcher \<Rightarrow> curl \<Rightarrow> nat list \<Rightarrow> 'c tor_scraper \<Rightarrow> exn option \<times> 'c tor_scraper" where
  "start_tor_processes launch curl [] s = (None, s)"
| "start_tor_processes launch curl (index # rest) s =
     (case start_tor_process launch curl index s of
        (Some e, s') \<Rightarrow> (Some e, s')
      | (None, s') \<Rightarrow> start_tor_processes launch curl rest s')"

section \<open>The worker threads\<close>

text \<open>
  A thread running \<open>_tor_worker(index)\<close> is at one of three places: before its first
  log line, at \<open>get(False)\<close>, or holding the task it took. It ends by \<open>break\<close>
  (\<open>Finished\<close>) or by an exception that leaves \<open>_tor_worker\<close> (\<open>Died\<close>); nothing in the
  function catches anything but \<open>Queue.Empty\<close>.
\<close>

datatype 'c thread = Starting | Looping | Got "'c scrape" | Finished | Died exn

fun runnable :: "'c thread \<Rightarrow> bool" where
  "runnable Starting = True"
| "runnable Looping = True"
| "runnable (Got t) = True"
| "runnable Finished = False"
| "runnable (Died e) = False"

definition call_handler ::
  "'c handler \<Rightarrow> string \<Rightarrow> 'c option \<Rightarrow> string option \<Rightarrow> 'c log_record list
     \<Rightarrow> exn option \<times> 'c log_record list" where
  "call_handler h u ctx result lg = (case h of
      Default_handler \<Rightarrow> (None, default_handler u ctx result lg)
    | User_handler f \<Rightarrow> (f u ctx result, lg))"

text \<open>
  One step of one thread. Taking a task is one step (the queue's mutex); the work on a
  task (log line, \<open>_query\<close>, handler call, \<open>task_done()\<close>) is the next step of that thread.
  When \<open>_query\<close> raises, the handler is not called and the exception ends the thread;
  so does an exception of the handler. \<open>task_done()\<close> only counts down the queue's
  unfinished tasks, which nothing reads. A thread that ends leaves an event.
\<close>

fun tor_worker_step ::
  "curl \<Rightarrow> nat \<Rightarrow> 'c thread \<Rightarrow> 'c tor_scraper \<Rightarrow> 'c thread \<times> 'c tor_scraper" where
  "tor_worker_step curl index Starting s =
     (Looping, s\<lparr>logger := logger s @ [(INFO, ''Starting _tor_worker:'' @ str_int (int index), [])]\<rparr>)"
| "tor_worker_step curl index Looping s = (case get_nowait (scrape_queue s) of
      Inl Empty \<Rightarrow> (Finished, s\<lparr>events := events s @ [Thread_ended index None]\<rparr>)
    | Inr (scrape, rest) \<Rightarrow>
        (Got scrape, s\<lparr>scrape_queue := rest, dequeued := dequeued s @ [(index, scrape)]\<rparr>))"
| "tor_worker_step curl index (Got scrape) s =
     (let lg1 = logger s @ [(DEBUG, ''Scraping _tor_worker:'' @ str_int (int index) @
                                      '' url:'' @ url scrape, [])]
      in case query curl (url scrape) (socks_port_offset (config s) + int index) lg1 of
           (Inl e, lg2) \<Rightarrow>
             (Died e, s\<lparr>logger := lg2, aborted := aborted s @ [(index, scrape, e)],
                        events := events s @ [Thread_ended index (Some e)]\<rparr>)
         | (Inr result, lg2) \<Rightarrow>
             let called = call_handler (handler scrape) (url scrape) (scrape_context scrape)
                            result lg2;
                 s' = s\<lparr>logger := snd called, handled := handled s @ [(index, scrape, result)]\<rparr>
             in case fst called of
                  None \<Rightarrow> (Looping, s')
                | Some e \<Rightarrow> (Died e, s'\<lparr>events := events s' @ [Thread_ended index (Some e)]\<rparr>))"
| "tor_worker_step curl index Finished s = (Finished, s)"
| "tor_worker_step curl index (Died e) s = (Died e, s)"

text \<open>
  The threads run interleaved. A schedule is a list of choices: each picks, among the
  threads still running, the one that takes the next step (the choice modulo their
  number; the first one once the list is used up), so every interleaving of the steps
  is the run of some schedule. The threads are done when none is running, which is
  when the \<open>join()\<close> loop of \<open>run\<close> is through. Creating and starting a thread is taken
  to succeed.
\<close>

definition live_threads :: "'c thread list \<Rightarrow> nat list" where
  "live_threads ths = filter (\<lambda>i. runnable (ths ! i)) [0..<length ths]"

definition pick :: "nat list \<Rightarrow> nat \<Rightarrow> nat" where
  "pick sched n = (case sched of [] \<Rightarrow> 0 | c # _ \<Rightarrow> c mod n)"

definition next_thread :: "nat list \<Rightarrow> 'c thread list \<Rightarrow> nat" where
  "next_thread sched ths = live_threads ths ! pick sched (length (live_threads ths))"

fun weight :: "'c thread \<Rightarrow> nat" where
  "weight Starting = 2"
| "weight Looping = 1"
| "weight (Got t) = 2"
| "weight Finished = 0"
| "weight (Died e) = 0"

definition work_left :: "'c thread list \<Rightarrow> 'c tor_scraper \<Rightarrow> nat" where
  "work_left ths s = 2 * length (scrape_queue s) + sum_list (map weight ths)"

lemmas step_splits = list.splits option.splits prod.splits sum.splits

lemma next_thread_live:
  assumes "live_threads ths \<noteq> []"
  shows "next_thread sched ths < length ths \<and> runnable (ths ! next_thread sched ths)"
proof -
  let ?l = "live_threads ths"
  have "pick sched (length ?l) < length ?l"
    using assms by (simp add: pick_def split: list.splits)
  then have "next_thread sched ths \<in> set ?l"
    by (simp add: next_thread_def)
  then show ?thesis
    by (simp add: live_threads_def)
qed

lemma weight_update:
  assumes "i < length ths"
  shows "sum_list (map weight (ths[i := th])) + weight (ths ! i) = sum_list (map weight ths) + weight th"
proof -
  have "sum_list ((map weight ths)[i := weight th]) = sum_list (map weight ths) + weight th - map weight ths ! i"
    using assms by (simp add: sum_list_update)
  moreover have "map weight ths ! i \<le> sum_list (map weight ths)"
    using assms by (simp add: member_le_sum_list)
  ultimately show ?thesis
    using assms by (simp add: map_update)
qed

lemma step_work_left:
  assumes "runnable th"
  shows "2 * length (scrape_queue (snd (tor_worker_step curl i th s))) + weight (fst (tor_worker_step curl i th s))
         < 2 * length (scrape_queue s) + weight th"
  using assms
  by (cases th) (auto simp: get_nowait_def Let_def split: step_splits)

function run_threads ::
  "curl \<Rightarrow> nat list \<Rightarrow> 'c thread list \<Rightarrow> 'c tor_scraper \<Rightarrow> 'c thread list \<times> 'c tor_scraper" where
  "run_threads curl sched ths s =
     (if live_threads ths = [] then (ths, s)
      else let i = next_thread sched ths;
               r = tor_worker_step curl i (ths ! i) s
           in run_threads curl (tl sched) (ths[i := fst r]) (snd r))"
  by pat_completeness auto
termination
proof (relation "measure (\<lambda>(curl, sched, ths, s). work_left ths s)", goal_cases)
  case 1
  show ?case by simp
next
  case (2 curl sched ths s i r)
  have live: "i < length ths" "runnable (ths ! i)"
    using 2 next_thread_live [of ths sched] by simp_all
  have "2 * length (scrape_queue (snd r)) + weight (fst r) < 2 * length (scrape_queue s) + weight (ths ! i)"
    using 2 live step_work_left [of "ths ! i" curl i s] by simp
  moreover have "sum_list (map weight (ths[i := fst r])) + weight (ths ! i)
                 = sum_list (map weight ths) + weight (fst r)"
    using live weight_update by blast
  ultimately show ?case
    by (simp add: work_left_def)
qed

declare run_threads.simps [simp del]

section \<open>\<open>run\<close>\<close>

text \<open>
  The start loop, then the threads until all have ended, then the kill loop over the
  processes started (\<open>kill()\<close> is taken to succeed). An exception in the start loop
  leaves \<open>run\<close> at once; an exception in a thread ends that thread and does not reach
  \<open>run\<close>.
\<close>

definition run ::
  "launcher \<Rightarrow> curl \<Rightarrow> nat list \<Rightarrow> 'c tor_scraper \<Rightarrow> exn option \<times> 'c tor_scraper" where
  "run launch curl sched s =
     (let n = nat (thread_count (config s))
      in case start_tor_processes launch curl [0..<n] (s\<lparr>tor_processes := []\<rparr>) of
           (Some e, s1) \<Rightarrow> (Some e, s1)
         | (None, s1) \<Rightarrow>
             let r = run_threads curl sched (replicate n Starting) s1
             in (None, (snd r)\<lparr>killed := killed (snd r) @ tor_processes (snd r),
                                 events := events (snd r) @ map Process_killed (tor_processes (snd r))\<rparr>))"

section \<open>Notions for stating the properties\<close>

text \<open>
  The task a thread holds, the tasks held by all threads, and all the tasks the scraper
  knows of: those handled, those on which \<open>_query\<close> raised, those held and those still
  queued.
\<close>

fun held :: "'c thread \<Rightarrow> 'c scrape list" where
  "held (Got t) = [t]"
| "held th = []"

definition holding :: "'c thread list \<Rightarrow> 'c scrape list" where
  "holding ths = concat (map held ths)"

definition tasks_of :: "'c thread list \<Rightarrow> 'c tor_scraper \<Rightarrow> 'c scrape multiset" where
  "tasks_of ths s = mset (map (fst \<circ> snd) (handled s)) + mset (map (fst \<circ> snd) (aborted s))
                      + mset (holding ths) + mset (scrape_queue s)"

text \<open>The value \<open>_query\<close> returns when it returns, whatever it logs.\<close>

definition query_result :: "curl \<Rightarrow> string \<Rightarrow> int \<Rightarrow> string option" where
  "query_result curl u port = (case perform curl u port of Inl exc \<Rightarrow> None | Inr body \<Rightarrow> Some body)"

text \<open>
  The worker of an index gets through a task when \<open>_query\<close> returns on the task's URL
  and the worker's port, and the handler returns on the value \<open>_query\<close> returned.
\<close>

definition gets_through :: "curl \<Rightarrow> config \<Rightarrow> nat \<Rightarrow> 'c scrape \<Rightarrow> bool" where
  "gets_through curl cfg index t \<longleftrightarrow>
     setopt curl (url t) (socks_port_offset cfg + int index) = None
     \<and> fst (call_handler (handler t) (url t) (scrape_context t)
              (query_result curl (url t) (socks_port_offset cfg + int index)) []) = None"

text \<open>
  The exception that ended a worker came from a task of its own: from the task's
  handler, which raised it on the value it was called with, or from \<open>_query\<close> on the task.
\<close>

definition own_fault :: "'c tor_scraper \<Rightarrow> nat \<Rightarrow> exn \<Rightarrow> bool" where
  "own_fault s index e \<longleftrightarrow>
     (\<exists>t r. (index, t, r) \<in> set (handled s)
            \<and> fst (call_handler (handler t) (url t) (scrape_context t) r []) = Some e)
     \<or> (\<exists>t. (index, t, e) \<in> set (aborted s))"

text \<open>
  How a thread that has ended ended: \<open>None\<close> by \<open>break\<close>, \<open>Some e\<close> by the exception \<open>e\<close>;
  the event a thread of index \<open>i\<close> has left when it has ended; and the events left by
  the threads of a list, the first of which has index \<open>k\<close>.
\<close>

fun outcome :: "'c thread \<Rightarrow> exn option" where
  "outcome (Died e) = Some e"
| "outcome th = None"

fun end_of :: "nat \<Rightarrow> 'c thread \<Rightarrow> event list" where
  "end_of i Finished = [Thread_ended i None]"
| "end_of i (Died e) = [Thread_ended i (Some e)]"
| "end_of i th = []"

fun ends_from :: "nat \<Rightarrow> 'c thread list \<Rightarrow> event list" where
  "ends_from k [] = []"
| "ends_from k (th # ths) = end_of k th @ ends_from (Suc k) ths"


text \<open>The calls of \<open>add_scrape\<close> a caller makes, one after the other.\<close>

definition add_scrapes ::
  "(string \<times> 'c option \<times> 'c handler option) list \<Rightarrow> 'c tor_scraper \<Rightarrow> 'c tor_scraper" where
  "add_scrapes calls s = foldl (\<lambda>s' (u, ctx, h). add_scrape u ctx h s') s calls"

section \<open>Example collaborators\<close>

text \<open>
  A launcher whose processes all come up, a pycurl that always answers, a small
  configuration with the public IP line switched off, and a handler that raises.
\<close>

definition launch_ok :: launcher where
  "launch_ok cmd rc = ([''Nov 04 12:00:00.000 [notice] Bootstrapped 100%: Done''], True)"

definition fetch_ok :: curl where
  "fetch_ok = \<lparr>setopt = (\<lambda>u port. None),
               perform = (\<lambda>u port. Inr (''<html>'' @ u @ ''</html>''))\<rparr>"

definition small_config :: "int \<Rightarrow> config" where
  "small_config n = \<lparr>thread_count = n, socks_port_offset = 20, control_port_offset = 30,
     data_directory = ''tor_data/'', tor_cmd = ''tor'', public_ip_url = Some ''''\<rparr>"

definition raising :: "unit handler" where
  "raising = User_handler (\<lambda>u ctx result. Some (Handler_exn ''ValueError''))"


definition fetch_fails :: curl where
  "fetch_fails = \<lparr>setopt = (\<lambda>u port. None),
                  perform = (\<lambda>u port. Inl (Curl_error 7 ''Failed to connect''))\<rparr>"

text \<open>A pycurl whose fetch fails for one URL.\<close>

definition fetch_bad :: curl where
  "fetch_bad = \<lparr>setopt = (\<lambda>u port. None),
                perform = (\<lambda>u port. if u = ''bad'' then Inl (Curl_error 28 ''Timeout was reached'')
                                      else Inr (''<html>'' @ u @ ''</html>''))\<rparr>"

text \<open>
  A pycurl that refuses, in \<open>setopt\<close>, a URL with a NUL byte and a port outside 0..65535,
  and a handler that raises when its result is \<open>None\<close>.
\<close>

definition fetch_checked :: curl where
  "fetch_checked = \<lparr>setopt = (\<lambda>u port. if CHR 0x00 \<in> set u \<or> port < 0 \<or> 65535 < port
                                           then Some (Setopt_error ''invalid arguments to setopt'')
                                           else None),
                    perform = (\<lambda>u port. Inr (''<html>'' @ u @ ''</html>''))\<rparr>"

definition needs_result :: "unit handler" where
  "needs_result = User_handler (\<lambda>u ctx result. case result of
                                   None \<Rightarrow> Some (Handler_exn ''TypeError'')
                                 | Some body \<Rightarrow> None)"

section \<open>The threads preserve what a single step preserves\<close>

lemma live_threads_empty: "live_threads ths = [] \<longleftrightarrow> (\<forall>th \<in> set ths. \<not> runnable th)"
  by (auto simp: live_threads_def filter_empty_conv all_set_conv_all_nth)

lemma run_threads_invariant:
  assumes "P ths s"
    and "\<And>i ths s. P ths s \<Longrightarrow> i < length ths \<Longrightarrow> runnable (ths ! i) \<Longrightarrow>
           P (ths[i := fst (tor_worker_step curl i (ths ! i) s)])
             (snd (tor_worker_step curl i (ths ! i) s))"
  shows "P (fst (run_threads curl sched ths s)) (snd (run_threads curl sched ths s))"
  using assms
proof (induction curl sched ths s rule: run_threads.induct)
  case (1 curl sched ths s)
  show ?case
  proof (cases "live_threads ths = []")
    case True
    then show ?thesis using "1.prems"(1) by (simp add: run_threads.simps)
  next
    case False
    let ?i = "next_thread sched ths"
    let ?r = "tor_worker_step curl ?i (ths ! ?i) s"
    have "P (ths[?i := fst ?r]) (snd ?r)"
      using "1.prems" next_thread_live [OF False] by blast
    then have "P (fst (run_threads curl (tl sched) (ths[?i := fst ?r]) (snd ?r)))
                 (snd (run_threads curl (tl sched) (ths[?i := fst ?r]) (snd ?r)))"
      using "1.IH" [OF False refl refl] "1.prems"(2) by blast
    then show ?thesis
      using False by (simp add: run_threads.simps [of curl sched ths s] Let_def)
  qed
qed

lemma run_threads_done: "live_threads (fst (run_threads curl sched ths s)) = []"
proof (induction curl sched ths s rule: run_threads.induct)
  case (1 curl sched ths s)
  then show ?case
    by (cases "live_threads ths = []") (simp_all add: run_threads.simps [of curl sched ths s] Let_def)
qed

lemma holding_update:
  "i < length ths \<Longrightarrow>
     mset (holding (ths[i := th])) + mset (held (ths ! i)) = mset (holding ths) + mset (held th)"
proof (induction ths arbitrary: i)
  case Nil
  then show ?case by simp
next
  case (Cons a ths)
  then show ?case
    by (cases i) (auto simp: holding_def)
qed

lemma holding_done: "live_threads ths = [] \<Longrightarrow> holding ths = []"
proof -
  assume "live_threads ths = []"
  then have "\<forall>th \<in> set ths. held th = []"
    unfolding live_threads_empty
    by (metis held.simps(2-5) runnable.simps(3) thread.exhaust)
  then show ?thesis
    by (simp add: holding_def)
qed

lemma step_tasks:
  "mset (map (fst \<circ> snd) (handled (snd (tor_worker_step curl i th s))))
     + mset (map (fst \<circ> snd) (aborted (snd (tor_worker_step curl i th s))))
     + mset (held (fst (tor_worker_step curl i th s)))
     + mset (scrape_queue (snd (tor_worker_step curl i th s)))
   = mset (map (fst \<circ> snd) (handled s)) + mset (map (fst \<circ> snd) (aborted s))
     + mset (held th) + mset (scrape_queue s)"
  by (cases th) (auto simp: get_nowait_def Let_def split: step_splits)

lemma step_tasks_of:
  assumes "i < length ths"
  shows "tasks_of (ths[i := fst (tor_worker_step curl i (ths ! i) s)])
           (snd (tor_worker_step curl i (ths ! i) s)) = tasks_of ths s"
proof -
  let ?r = "tor_worker_step curl i (ths ! i) s"
  have "tasks_of (ths[i := fst ?r]) (snd ?r) + mset (held (ths ! i))
        = mset (map (fst \<circ> snd) (handled (snd ?r))) + mset (map (fst \<circ> snd) (aborted (snd ?r)))
          + mset (held (fst ?r)) + mset (scrape_queue (snd ?r)) + mset (holding ths)"
    using holding_update [OF assms, of "fst ?r"] by (simp add: tasks_of_def add.commute add.left_commute)
  also have "\<dots> = tasks_of ths s + mset (held (ths ! i))"
    using step_tasks [of curl i "ths ! i" s] by (simp add: tasks_of_def ac_simps)
  finally show ?thesis by simp
qed

lemma run_threads_tasks_of:
  "tasks_of (fst (run_threads curl sched ths s)) (snd (run_threads curl sched ths s))
   = tasks_of ths s"
  by (rule run_threads_invariant [where P = "\<lambda>ths' s'. tasks_of ths' s' = tasks_of ths s"])
     (simp_all add: step_tasks_of)

lemma run_threads_handled:
  "mset (map (fst \<circ> snd) (handled (snd (run_threads curl sched ths s))))
     + mset (map (fst \<circ> snd) (aborted (snd (run_threads curl sched ths s))))
     + mset (scrape_queue (snd (run_threads curl sched ths s)))
   = mset (map (fst \<circ> snd) (handled s)) + mset (map (fst \<circ> snd) (aborted s))
     + mset (holding ths) + mset (scrape_queue s)"
  using run_threads_tasks_of [of curl sched ths s]
        holding_done [OF run_threads_done [of curl sched ths s]]
  by (simp add: tasks_of_def)

lemma step_fifo:
  "map snd (dequeued (snd (tor_worker_step curl i th s))) @ scrape_queue (snd (tor_worker_step curl i th s))
   = map snd (dequeued s) @ scrape_queue s"
  by (cases th) (auto simp: get_nowait_def Let_def split: step_splits)

lemma run_threads_fifo:
  "map snd (dequeued (snd (run_threads curl sched ths s))) @ scrape_queue (snd (run_threads curl sched ths s))
   = map snd (dequeued s) @ scrape_queue s"
  by (rule run_threads_invariant
        [where P = "\<lambda>ths' s'. map snd (dequeued s') @ scrape_queue s' = map snd (dequeued s) @ scrape_queue s"])
     (simp_all add: step_fifo)

lemma step_static:
  "config (snd (tor_worker_step curl i th s)) = config s
   \<and> launched (snd (tor_worker_step curl i th s)) = launched s
   \<and> tor_processes (snd (tor_worker_step curl i th s)) = tor_processes s
   \<and> killed (snd (tor_worker_step curl i th s)) = killed s"
  by (cases th) (auto simp: get_nowait_def Let_def split: step_splits)

lemma run_threads_static:
  "config (snd (run_threads curl sched ths s)) = config s
   \<and> launched (snd (run_threads curl sched ths s)) = launched s
   \<and> tor_processes (snd (run_threads curl sched ths s)) = tor_processes s
   \<and> killed (snd (run_threads curl sched ths s)) = killed s"
  by (rule run_threads_invariant
        [where P = "\<lambda>ths' s'. config s' = config s \<and> launched s' = launched s
                       \<and> tor_processes s' = tor_processes s \<and> killed s' = killed s"])
     (simp_all add: step_static)

lemma run_threads_length:
  "length (fst (run_threads curl sched ths s)) = length ths"
  by (rule run_threads_invariant [where P = "\<lambda>ths' s'. length ths' = length ths"]) simp_all

section \<open>Enqueueing\<close>

lemma scrape_queue_add_scrape:
  "scrape_queue (add_scrape u ctx h s) =
     scrape_queue s @ [\<lparr>url = u, scrape_context = ctx,
                        handler = (case h of None \<Rightarrow> Default_handler | Some f \<Rightarrow> f)\<rparr>]"
  by (simp add: add_scrape_def put_def)

lemma scrape_queue_add_scrapes:
  "scrape_queue (add_scrapes calls s) =
     scrape_queue s @ map (\<lambda>(u, ctx, h). \<lparr>url = u, scrape_context = ctx,
                        handler = (case h of None \<Rightarrow> Default_handler | Some f \<Rightarrow> f)\<rparr>) calls"
  unfolding add_scrapes_def
  by (induction calls arbitrary: s) (auto simp: scrape_queue_add_scrape)

lemma add_scrape_other_fields:
  "config (add_scrape u ctx h s) = config s \<and> logger (add_scrape u ctx h s) = logger s
   \<and> launched (add_scrape u ctx h s) = launched s \<and> tor_processes (add_scrape u ctx h s) = tor_processes s
   \<and> killed (add_scrape u ctx h s) = killed s \<and> dequeued (add_scrape u ctx h s) = dequeued s
   \<and> handled (add_scrape u ctx h s) = handled s \<and> aborted (add_scrape u ctx h s) = aborted s
   \<and> events (add_scrape u ctx h s) = events s"
  by (simp add: add_scrape_def)

lemma add_scrapes_other_fields:
  "config (add_scrapes calls s) = config s \<and> logger (add_scrapes calls s) = logger s
   \<and> launched (add_scrapes calls s) = launched s \<and> tor_processes (add_scrapes calls s) = tor_processes s
   \<and> killed (add_scrapes calls s) = killed s \<and> dequeued (add_scrapes calls s) = dequeued s
   \<and> handled (add_scrapes calls s) = handled s \<and> aborted (add_scrapes calls s) = aborted s
   \<and> events (add_scrapes calls s) = events s"
  unfolding add_scrapes_def
  by (induction calls arbitrary: s) (auto simp: add_scrape_other_fields)

section \<open>The bootstrap message handler\<close>

lemma rfind_None: "sep \<noteq> [] \<Longrightarrow> rfind sep s = None \<longleftrightarrow> \<not> sublist sep s"
  by (induction s) (auto simp: sublist_Cons_right split: option.splits)

lemma rfind_Some: "rfind sep s = Some k \<Longrightarrow> s = take k s @ sep @ drop (k + length sep) s"
proof (induction s arbitrary: k)
  case Nil
  then show ?case by simp
next
  case (Cons c cs)
  show ?case
  proof (cases "rfind sep cs")
    case None
    with Cons.prems have k: "k = 0" and p: "prefix sep (c # cs)"
      by (auto split: if_splits)
    from p obtain zs where "c # cs = sep @ zs" by (auto simp: prefix_def)
    then show ?thesis using k by simp
  next
    case (Some k')
    with Cons.prems have "k = Suc k'" by simp
    then show ?thesis using Cons.IH [OF Some] by simp
  qed
qed

lemma tor_init_msg_handler_ignores:
  "\<not> sublist ''Bootstrapped '' line \<Longrightarrow> tor_init_msg_handler line lg = Inr lg"
  by (simp add: tor_init_msg_handler_def)

lemma tor_init_msg_handler_logs:
  assumes "sublist ''Bootstrapped '' line" and "rfind ''[notice] '' line = Some k"
  shows "tor_init_msg_handler line lg = Inr (lg @ [(INFO, drop (k + length ''[notice] '') line, [])])
         \<and> line = take k line @ ''[notice] '' @ drop (k + length ''[notice] '') line"
  using assms rfind_Some [of "''[notice] ''" line k]
  by (simp add: tor_init_msg_handler_def rsplit1_def subscript_def)

lemma tor_init_msg_handler_raises_iff:
  "tor_init_msg_handler line lg = Inl e \<longleftrightarrow>
     e = IndexError \<and> sublist ''Bootstrapped '' line \<and> \<not> sublist ''[notice] '' line"
proof (cases "rfind ''[notice] '' line")
  case None
  then have "\<not> sublist ''[notice] '' line" using rfind_None [of "''[notice] ''" line] by simp
  then show ?thesis using None
    by (auto simp: tor_init_msg_handler_def rsplit1_def subscript_def)
next
  case (Some k)
  then have "sublist ''[notice] '' line" using rfind_None [of "''[notice] ''" line] by simp
  then show ?thesis using Some
    by (auto simp: tor_init_msg_handler_def rsplit1_def subscript_def)
qed

section \<open>\<open>str\<close> loses nothing\<close>

lemma digit_cases: "d < 10 \<Longrightarrow> d \<in> {0, 1, 2, 3, 4, 5, 6, 7, 8, 9::nat}"
  by auto

lemma digit_val_digit: "d < 10 \<Longrightarrow> digit_val (digit d) = d"
  using digit_cases [of d] by (auto simp: digit_def digit_val_def)

lemma digit_not_minus: "d < 10 \<Longrightarrow> digit d \<noteq> CHR ''-''"
  using digit_cases [of d] by (auto simp: digit_def)

lemma nat_of_str_snoc: "nat_of_str (s @ [c]) = 10 * nat_of_str s + digit_val c"
  by (simp add: nat_of_str_def)

lemma nat_of_str_str_nat: "nat_of_str (str_nat n) = n"
proof (induction n rule: str_nat.induct)
  case (1 n)
  show ?case
  proof (cases "n < 10")
    case True
    then show ?thesis
      by (simp add: str_nat.simps [of n] nat_of_str_def digit_val_digit)
  next
    case False
    then show ?thesis
      using 1 by (simp add: str_nat.simps [of n] nat_of_str_snoc digit_val_digit)
  qed
qed

lemma str_nat_hd: "\<exists>c cs. str_nat n = c # cs \<and> c \<noteq> CHR ''-''"
proof (induction n rule: str_nat.induct)
  case (1 n)
  show ?case
  proof (cases "n < 10")
    case True
    then show ?thesis
      by (simp add: str_nat.simps [of n] digit_not_minus)
  next
    case False
    then show ?thesis
      using 1 by (auto simp: str_nat.simps [of n])
  qed
qed

lemma int_of_str_str_int: "int_of_str (str_int i) = i"
proof (cases "i < 0")
  case True
  then show ?thesis
    by (simp add: str_int_def int_of_str_def nat_of_str_str_nat)
next
  case False
  obtain c cs where "str_nat (nat i) = c # cs" "c \<noteq> CHR ''-''"
    using str_nat_hd by blast
  then show ?thesis
    using False nat_of_str_str_nat [of "nat i"] by (simp add: str_int_def int_of_str_def)
qed

lemma str_int_inj: "str_int a = str_int b \<longleftrightarrow> a = b"
  by (metis int_of_str_str_int)

section \<open>Starting a process: what changes\<close>

lemma start_tor_process_fields:
  assumes "start_tor_process launch curl index s = (r, s')"
  shows "config s' = config s \<and> scrape_queue s' = scrape_queue s \<and> killed s' = killed s
         \<and> dequeued s' = dequeued s \<and> handled s' = handled s \<and> aborted s' = aborted s
         \<and> launched s' = launched s @ [(tor_cmd (config s), torrc_of (config s) index)]"
  using assms
  by (auto simp: start_tor_process_def Let_def split: prod.splits option.splits sum.splits if_splits)

lemma start_tor_process_procs:
  assumes "start_tor_process launch curl index s = (r, s')"
  shows "(r = None \<longrightarrow> tor_processes s' = tor_processes s @ [index])
         \<and> (tor_processes s' = tor_processes s \<or> tor_processes s' = tor_processes s @ [index])"
  using assms
  by (auto simp: start_tor_process_def Let_def split: prod.splits option.splits sum.splits if_splits)

lemma start_tor_process_events:
  assumes "start_tor_process launch curl index s = (r, s')"
  shows "\<exists>new. tor_processes s' = tor_processes s @ new
               \<and> events s' = events s @ map Process_started new"
proof -
  have "(tor_processes s' = tor_processes s @ [] \<and> events s' = events s @ map Process_started [])
        \<or> (tor_processes s' = tor_processes s @ [index]
            \<and> events s' = events s @ map Process_started [index])"
    using assms
    by (auto simp: start_tor_process_def Let_def split: prod.splits option.splits sum.splits if_splits)
  then show ?thesis by blast
qed

section \<open>A step on a task\<close>

lemma query_fst:
  "fst (query curl u port lg) =
     (case setopt curl u port of Some e \<Rightarrow> Inl e | None \<Rightarrow> Inr (query_result curl u port))"
  by (simp add: query_def query_result_def split: option.splits sum.splits)

lemma query_raises:
  "setopt curl u port = Some e \<Longrightarrow> query curl u port lg = (Inl e, lg)"
  by (simp add: query_def)

lemma call_handler_fst:
  "fst (call_handler h u ctx r lg) = fst (call_handler h u ctx r lg')"
  by (simp add: call_handler_def split: handler.splits)

lemma step_query_raises:
  assumes "setopt curl (url t) (socks_port_offset (config s) + int i) = Some e"
  shows "tor_worker_step curl i (Got t) s =
     (Died e, s\<lparr>logger := logger s @ [(DEBUG, ''Scraping _tor_worker:'' @ str_int (int i) @ '' url:'' @ url t, [])],
                aborted := aborted s @ [(i, t, e)],
                events := events s @ [Thread_ended i (Some e)]\<rparr>)"
  using assms by (simp add: Let_def query_raises)

lemma step_handler_returns:
  assumes "setopt curl (url t) (socks_port_offset (config s) + int i) = None"
    and "fst (call_handler (handler t) (url t) (scrape_context t)
                (query_result curl (url t) (socks_port_offset (config s) + int i)) []) = None"
  shows "tor_worker_step curl i (Got t) s =
     (Looping,
      s\<lparr>logger := snd (call_handler (handler t) (url t) (scrape_context t)
                         (query_result curl (url t) (socks_port_offset (config s) + int i))
                         (snd (query curl (url t) (socks_port_offset (config s) + int i)
                            (logger s @ [(DEBUG, ''Scraping _tor_worker:'' @ str_int (int i) @ '' url:'' @ url t, [])])))),
        handled := handled s @ [(i, t, query_result curl (url t) (socks_port_offset (config s) + int i))]\<rparr>)"
proof -
  let ?port = "socks_port_offset (config s) + int i"
  have q: "fst (query curl (url t) ?port lg) = Inr (query_result curl (url t) ?port)" for lg :: "'a log_record list"
    using assms(1) by (simp add: query_fst)
  have h: "fst (call_handler (handler t) (url t) (scrape_context t) (query_result curl (url t) ?port) lg) = None" for lg
    using assms(2) call_handler_fst [of "handler t" "url t" "scrape_context t" _ lg "[]"] by simp
  show ?thesis
    by (simp add: Let_def case_prod_beta q h)
qed

lemma step_handler_raises:
  assumes "setopt curl (url t) (socks_port_offset (config s) + int i) = None"
    and "fst (call_handler (handler t) (url t) (scrape_context t)
                (query_result curl (url t) (socks_port_offset (config s) + int i)) []) = Some e"
  shows "tor_worker_step curl i (Got t) s =
     (Died e,
      s\<lparr>logger := snd (call_handler (handler t) (url t) (scrape_context t)
                         (query_result curl (url t) (socks_port_offset (config s) + int i))
                         (snd (query curl (url t) (socks_port_offset (config s) + int i)
                            (logger s @ [(DEBUG, ''Scraping _tor_worker:'' @ str_int (int i) @ '' url:'' @ url t, [])])))),
        handled := handled s @ [(i, t, query_result curl (url t) (socks_port_offset (config s) + int i))],
        events := events s @ [Thread_ended i (Some e)]\<rparr>)"
proof -
  let ?port = "socks_port_offset (config s) + int i"
  have q: "fst (query curl (url t) ?port lg) = Inr (query_result curl (url t) ?port)" for lg :: "'a log_record list"
    using assms(1) by (simp add: query_fst)
  have h: "fst (call_handler (handler t) (url t) (scrape_context t) (query_result curl (url t) ?port) lg) = Some e" for lg
    using assms(2) call_handler_fst [of "handler t" "url t" "scrape_context t" _ lg "[]"] by simp
  show ?thesis
    by (simp add: Let_def case_prod_beta q h)
qed

lemma gets_through_step:
  "fst (tor_worker_step curl i (Got t) s) = Looping \<longleftrightarrow> gets_through curl (config s) i t"
proof (cases "setopt curl (url t) (socks_port_offset (config s) + int i)")
  case (Some e)
  then show ?thesis
    using step_query_raises [OF Some] by (simp add: gets_through_def)
next
  case None
  show ?thesis
  proof (cases "fst (call_handler (handler t) (url t) (scrape_context t)
                (query_result curl (url t) (socks_port_offset (config s) + int i)) [])")
    case N: None
    then show ?thesis
      using step_handler_returns [OF None N] None by (simp add: gets_through_def)
  next
    case (Some e)
    then show ?thesis
      using step_handler_raises [OF None Some] None by (simp add: gets_through_def)
  qed
qed

section \<open>Workers that get through their tasks\<close>

lemma held_in_holding: "i < length ths \<Longrightarrow> set (held (ths ! i)) \<subseteq> set (holding ths)"
  by (auto simp: holding_def intro!: bexI [of _ "ths ! i"])

lemma holding_update_subset:
  assumes "i < length ths"
  shows "set (holding (ths[i := th])) \<subseteq> set (holding ths) \<union> set (held th)"
proof -
  have "set_mset (mset (holding (ths[i := th])) + mset (held (ths ! i)))
        = set_mset (mset (holding ths) + mset (held th))"
    using holding_update [OF assms, of th] by simp
  then show ?thesis by auto
qed

lemma step_held_subset:
  "set (held (fst (tor_worker_step curl i th s))) \<union> set (scrape_queue (snd (tor_worker_step curl i th s)))
   \<subseteq> set (held th) \<union> set (scrape_queue s)"
  by (cases th) (auto simp: get_nowait_def Let_def split: step_splits)

lemma step_not_died:
  assumes "\<forall>t \<in> set (held th). gets_through curl (config s) i t" and "\<forall>e. th \<noteq> Died e"
  shows "fst (tor_worker_step curl i th s) \<noteq> Died e
         \<and> aborted (snd (tor_worker_step curl i th s)) = aborted s"
proof (cases th)
  case (Got t)
  then have g: "gets_through curl (config s) i t" using assms(1) by simp
  then have "tor_worker_step curl i (Got t) s =
     (Looping,
      s\<lparr>logger := snd (call_handler (handler t) (url t) (scrape_context t)
                         (query_result curl (url t) (socks_port_offset (config s) + int i))
                         (snd (query curl (url t) (socks_port_offset (config s) + int i)
                            (logger s @ [(DEBUG, ''Scraping _tor_worker:'' @ str_int (int i) @ '' url:'' @ url t, [])])))),
        handled := handled s @ [(i, t, query_result curl (url t) (socks_port_offset (config s) + int i))]\<rparr>)"
    by (intro step_handler_returns) (simp_all add: gets_through_def)
  then show ?thesis unfolding Got by (simp only: fst_conv snd_conv) simp
qed (use assms in \<open>auto simp: get_nowait_def split: list.splits\<close>)

lemma step_finished:
  assumes "runnable th" and "fst (tor_worker_step curl i th s) = Finished"
  shows "th = Looping \<and> scrape_queue s = []"
  using assms
  by (cases th) (auto simp: get_nowait_def Let_def split: step_splits)

lemma step_queue_empty:
  "scrape_queue s = [] \<Longrightarrow> scrape_queue (snd (tor_worker_step curl i th s)) = []"
  by (cases th) (auto simp: get_nowait_def Let_def split: step_splits)

lemma run_threads_finished_empty:
  assumes "Finished \<in> set ths \<longrightarrow> scrape_queue s = []"
  shows "Finished \<in> set (fst (run_threads curl sched ths s))
         \<longrightarrow> scrape_queue (snd (run_threads curl sched ths s)) = []"
proof (rule run_threads_invariant [where P = "\<lambda>ths' s'. Finished \<in> set ths' \<longrightarrow> scrape_queue s' = []"])
  show "Finished \<in> set ths \<longrightarrow> scrape_queue s = []" by (rule assms)
next
  fix i and ths :: "'a thread list" and s :: "'a tor_scraper"
  let ?r = "tor_worker_step curl i (ths ! i) s"
  assume inv: "Finished \<in> set ths \<longrightarrow> scrape_queue s = []"
    and i: "i < length ths" and live: "runnable (ths ! i)"
  show "Finished \<in> set (ths[i := fst ?r]) \<longrightarrow> scrape_queue (snd ?r) = []"
  proof
    assume "Finished \<in> set (ths[i := fst ?r])"
    then have "fst ?r = Finished \<or> Finished \<in> set ths"
      using set_update_subset_insert [of ths i "fst ?r"] by auto
    then show "scrape_queue (snd ?r) = []"
      using inv step_finished [OF live, of curl i s] step_queue_empty [of s curl i "ths ! i"]
      by auto
  qed
qed

lemma run_threads_none_died:
  assumes "\<forall>t \<in> set (holding ths) \<union> set (scrape_queue s). \<forall>i < length ths. gets_through curl (config s) i t"
    and "\<forall>th \<in> set ths. \<forall>e. th \<noteq> Died e"
  shows "(\<forall>th \<in> set (fst (run_threads curl sched ths s)). \<forall>e. th \<noteq> Died e)
         \<and> aborted (snd (run_threads curl sched ths s)) = aborted s"
proof -
  let ?ok = "\<lambda>t. \<forall>i < length ths. gets_through curl (config s) i t"
  let ?P = "\<lambda>ths' s'. config s' = config s \<and> length ths' = length ths \<and> aborted s' = aborted s
                        \<and> (\<forall>t \<in> set (holding ths') \<union> set (scrape_queue s'). ?ok t)
                        \<and> (\<forall>th \<in> set ths'. \<forall>e. th \<noteq> Died e)"
  have "?P (fst (run_threads curl sched ths s)) (snd (run_threads curl sched ths s))"
  proof (rule run_threads_invariant [where P = ?P])
    show "?P ths s" using assms by simp
  next
    fix i and ths' :: "'a thread list" and s' :: "'a tor_scraper"
    let ?r = "tor_worker_step curl i (ths' ! i) s'"
    assume inv: "?P ths' s'" and i: "i < length ths'" and live: "runnable (ths' ! i)"
    have cfg: "config s' = config s" and len: "length ths' = length ths"
      and ab: "aborted s' = aborted s"
      and ok: "\<forall>t \<in> set (holding ths') \<union> set (scrape_queue s'). ?ok t"
      and old: "\<forall>th \<in> set ths'. \<forall>e. th \<noteq> Died e"
      using inv by simp_all
    have held: "\<forall>t \<in> set (held (ths' ! i)). gets_through curl (config s') i t"
    proof
      fix t
      assume "t \<in> set (held (ths' ! i))"
      then have "t \<in> set (holding ths')" using held_in_holding [OF i] by auto
      then have "?ok t" using ok by simp
      then show "gets_through curl (config s') i t" using i len cfg by simp
    qed
    have alive: "\<forall>e. ths' ! i \<noteq> Died e"
      using live by (cases "ths' ! i") simp_all
    note st = step_not_died [OF held alive]
    have "set (holding (ths'[i := fst ?r])) \<union> set (scrape_queue (snd ?r))
          \<subseteq> set (holding ths') \<union> set (scrape_queue s')"
      using holding_update_subset [OF i, of "fst ?r"] step_held_subset [of curl i "ths' ! i" s']
            held_in_holding [OF i]
      by blast
    then have tasks: "\<forall>t \<in> set (holding (ths'[i := fst ?r])) \<union> set (scrape_queue (snd ?r)). ?ok t"
      using ok by blast
    have new: "\<forall>e. fst ?r \<noteq> Died e"
      using st by simp
    have died: "\<forall>th \<in> set (ths'[i := fst ?r]). \<forall>e. th \<noteq> Died e"
    proof
      fix th
      assume "th \<in> set (ths'[i := fst ?r])"
      then have "th = fst ?r \<or> th \<in> set ths'"
        using set_update_subset_insert [of ths' i "fst ?r"] by auto
      then show "\<forall>e. th \<noteq> Died e"
      proof
        assume "th = fst ?r"
        then show ?thesis using new by simp
      next
        assume "th \<in> set ths'"
        then show ?thesis using old by simp
      qed
    qed
    have "config (snd ?r) = config s"
      using step_static [of curl i "ths' ! i" s'] cfg by simp
    moreover have "length (ths'[i := fst ?r]) = length ths" using len by simp
    moreover have "aborted (snd ?r) = aborted s" using st ab by simp
    ultimately show "?P (ths'[i := fst ?r]) (snd ?r)"
      using tasks died by (intro conjI)
  qed
  then show ?thesis by simp
qed

lemma done_thread: "\<not> runnable th \<Longrightarrow> th = Finished \<or> (\<exists>e. th = Died e)"
  by (cases th) simp_all

lemma run_threads_drained:
  assumes "\<forall>t \<in> set (holding ths) \<union> set (scrape_queue s). \<forall>i < length ths. gets_through curl (config s) i t"
    and "\<forall>th \<in> set ths. \<forall>e. th \<noteq> Died e"
    and "ths \<noteq> []" and "Finished \<notin> set ths"
  shows "scrape_queue (snd (run_threads curl sched ths s)) = []
         \<and> fst (run_threads curl sched ths s) = replicate (length ths) Finished"
proof -
  let ?ths = "fst (run_threads curl sched ths s)"
  have "\<forall>th \<in> set ?ths. \<forall>e. th \<noteq> Died e"
    using run_threads_none_died [OF assms(1,2), of sched] by (rule conjunct1)
  then have fin: "\<forall>th \<in> set ?ths. th = Finished"
    using run_threads_done [of curl sched ths s]
    unfolding live_threads_empty
    using done_thread by blast
  have len: "length ?ths = length ths" by (rule run_threads_length)
  then have "?ths \<noteq> []" using assms(3) by auto
  then have "Finished \<in> set ?ths" using fin by (cases ?ths) auto
  then have "scrape_queue (snd (run_threads curl sched ths s)) = []"
    using run_threads_finished_empty [of ths s curl sched] assms(4) by simp
  moreover have "?ths = replicate (length ths) Finished"
    using fin len by (metis replicate_eqI)
  ultimately show ?thesis by simp
qed

section \<open>The events threads leave\<close>

lemma end_of_runnable: "runnable th \<Longrightarrow> end_of i th = []"
  by (cases th) simp_all

lemma end_of_done: "\<not> runnable th \<Longrightarrow> end_of i th = [Thread_ended i (outcome th)]"
  by (cases th) simp_all

lemma step_events:
  assumes "runnable th"
  shows "events (snd (tor_worker_step curl i th s))
         = events s @ end_of i (fst (tor_worker_step curl i th s))"
  using assms
  by (cases th) (auto simp: get_nowait_def Let_def split: step_splits)

lemma ends_from_update:
  "i < length ths \<Longrightarrow>
     mset (ends_from k (ths[i := th])) + mset (end_of (k + i) (ths ! i))
     = mset (ends_from k ths) + mset (end_of (k + i) th)"
proof (induction ths arbitrary: i k)
  case Nil
  then show ?case by simp
next
  case (Cons a ths)
  show ?case
  proof (cases i)
    case 0
    then show ?thesis by simp
  next
    case (Suc j)
    then have "j < length ths" using Cons.prems by simp
    from Cons.IH [OF this, of "Suc k"] show ?thesis using Suc by simp
  qed
qed

lemma ends_from_Starting: "ends_from k (replicate n Starting) = []"
  by (induction n arbitrary: k) simp_all

lemma ends_from_done:
  assumes "\<forall>th \<in> set ths. \<not> runnable th"
  shows "ends_from k ths = map2 Thread_ended [k..<k + length ths] (map outcome ths)"
  using assms
proof (induction ths arbitrary: k)
  case Nil
  then show ?case by simp
next
  case (Cons a ths)
  have "[k..<Suc (k + length ths)] = k # [Suc k..<Suc (k + length ths)]"
    by (rule upt_conv_Cons) simp
  then show ?case
    using Cons.IH [of "Suc k"] Cons.prems by (simp add: end_of_done del: upt_Suc)
qed

lemma run_threads_events:
  "\<exists>E. events (snd (run_threads curl sched ths s)) = events s @ E
        \<and> mset E + mset (ends_from 0 ths) = mset (ends_from 0 (fst (run_threads curl sched ths s)))"
proof -
  let ?P = "\<lambda>ths' s'. \<exists>E. events s' = events s @ E
                             \<and> mset E + mset (ends_from 0 ths) = mset (ends_from 0 ths')"
  show ?thesis
  proof (rule run_threads_invariant [where P = ?P])
    show "?P ths s" by simp
  next
    fix i and ths' :: "'a thread list" and s' :: "'a tor_scraper"
    let ?r = "tor_worker_step curl i (ths' ! i) s'"
    assume inv: "?P ths' s'" and i: "i < length ths'" and live: "runnable (ths' ! i)"
    from inv obtain E where E: "events s' = events s @ E"
      "mset E + mset (ends_from 0 ths) = mset (ends_from 0 ths')"
      by blast
    have ev: "events (snd ?r) = events s @ (E @ end_of i (fst ?r))"
      using step_events [OF live, of curl i s'] E(1) by simp
    have "mset (ends_from 0 (ths'[i := fst ?r])) = mset (ends_from 0 ths') + mset (end_of i (fst ?r))"
      using ends_from_update [OF i, of 0 "fst ?r"] end_of_runnable [OF live, of i] by simp
    then have "mset (E @ end_of i (fst ?r)) + mset (ends_from 0 ths)
               = mset (ends_from 0 (ths'[i := fst ?r]))"
      using E(2) by (simp add: ac_simps)
    with ev show "?P (ths'[i := fst ?r]) (snd ?r)" by blast
  qed
qed

lemma run_threads_ends:
  "\<exists>E outs. length outs = n
     \<and> mset E = mset (map2 Thread_ended [0..<n] outs)
     \<and> events (snd (run_threads curl sched (replicate n Starting) s)) = events s @ E"
proof -
  let ?R = "run_threads curl sched (replicate n Starting) s"
  obtain E where E: "events (snd ?R) = events s @ E"
    "mset E + mset (ends_from 0 (replicate n Starting :: 'a thread list)) = mset (ends_from 0 (fst ?R))"
    using run_threads_events [of curl sched "replicate n Starting" s] by blast
  have len: "length (fst ?R) = n"
    using run_threads_length [of curl sched "replicate n Starting" s] by simp
  have "\<forall>th \<in> set (fst ?R). \<not> runnable th"
    using run_threads_done [of curl sched "replicate n Starting" s]
    by (simp only: live_threads_empty)
  then have "ends_from 0 (fst ?R) = map2 Thread_ended [0..<n] (map outcome (fst ?R))"
    using ends_from_done [of "fst ?R" 0] len by simp
  then have "mset E = mset (map2 Thread_ended [0..<n] (map outcome (fst ?R)))"
    using E(2) by (simp add: ends_from_Starting)
  moreover have "length (map outcome (fst ?R)) = n" using len by simp
  ultimately show ?thesis using E(1) by blast
qed

section \<open>What ends a thread\<close>

lemma step_appends:
  "\<exists>h a. handled (snd (tor_worker_step curl i th s)) = handled s @ h
         \<and> aborted (snd (tor_worker_step curl i th s)) = aborted s @ a"
  by (cases th) (auto simp: get_nowait_def Let_def split: step_splits)

lemma own_fault_appends:
  assumes "own_fault s j e" and "handled s' = handled s @ h" and "aborted s' = aborted s @ a"
  shows "own_fault s' j e"
  using assms unfolding own_fault_def by auto

lemma step_own_fault:
  assumes "fst (tor_worker_step curl i (Got t) s) = Died e"
  shows "own_fault (snd (tor_worker_step curl i (Got t) s)) i e"
proof (cases "setopt curl (url t) (socks_port_offset (config s) + int i)")
  case (Some x)
  note st = step_query_raises [OF Some]
  have "x = e" using assms unfolding st by simp
  then have "(i, t, e) \<in> set (aborted (snd (tor_worker_step curl i (Got t) s)))"
    unfolding st by simp
  then show ?thesis unfolding own_fault_def by blast
next
  case None
  let ?res = "query_result curl (url t) (socks_port_offset (config s) + int i)"
  show ?thesis
  proof (cases "fst (call_handler (handler t) (url t) (scrape_context t) ?res [])")
    case N: None
    then show ?thesis
      using assms unfolding step_handler_returns [OF None N] by simp
  next
    case (Some x)
    note st = step_handler_raises [OF None Some]
    have "x = e" using assms unfolding st by simp
    then have "(i, t, ?res) \<in> set (handled (snd (tor_worker_step curl i (Got t) s)))
               \<and> fst (call_handler (handler t) (url t) (scrape_context t) ?res []) = Some e"
      unfolding st using Some by simp
    then show ?thesis unfolding own_fault_def by blast
  qed
qed

lemma step_died:
  assumes "runnable th" and "fst (tor_worker_step curl i th s) = Died e"
  shows "\<exists>t. th = Got t"
  using assms
  by (cases th) (auto simp: get_nowait_def split: step_splits)

lemma run_threads_own_fault:
  assumes "\<forall>j e. Thread_ended j (Some e) \<in> set (events s) \<longrightarrow> own_fault s j e"
  shows "\<forall>j e. Thread_ended j (Some e) \<in> set (events (snd (run_threads curl sched ths s)))
           \<longrightarrow> own_fault (snd (run_threads curl sched ths s)) j e"
proof -
  let ?P = "\<lambda>(ths' :: 'a thread list) s'.
              \<forall>j e. Thread_ended j (Some e) \<in> set (events s') \<longrightarrow> own_fault s' j e"
  show ?thesis
  proof (rule run_threads_invariant [where P = ?P])
    show "?P ths s" by (rule assms)
  next
    fix i and ths' :: "'a thread list" and s' :: "'a tor_scraper"
    let ?r = "tor_worker_step curl i (ths' ! i) s'"
    assume inv: "?P ths' s'" and i: "i < length ths'" and live: "runnable (ths' ! i)"
    obtain h a where app: "handled (snd ?r) = handled s' @ h" "aborted (snd ?r) = aborted s' @ a"
      using step_appends [of curl i "ths' ! i" s'] by blast
    show "?P (ths'[i := fst ?r]) (snd ?r)"
    proof (intro allI impI)
      fix j e
      assume "Thread_ended j (Some e) \<in> set (events (snd ?r))"
      then have "Thread_ended j (Some e) \<in> set (events s')
                 \<or> Thread_ended j (Some e) \<in> set (end_of i (fst ?r))"
        using step_events [OF live, of curl i s'] by auto
      then show "own_fault (snd ?r) j e"
      proof
        assume "Thread_ended j (Some e) \<in> set (events s')"
        then have "own_fault s' j e" using inv by blast
        then show ?thesis using app by (rule own_fault_appends)
      next
        assume new: "Thread_ended j (Some e) \<in> set (end_of i (fst ?r))"
        then have d: "j = i \<and> fst ?r = Died e"
          by (cases "fst ?r") simp_all
        then obtain t where t: "ths' ! i = Got t"
          using step_died [OF live, of curl i s' e] by blast
        show ?thesis
          using step_own_fault [of curl i t s' e] d unfolding t by simp
      qed
    qed
  qed
qed

lemma run_threads_break_empty:
  assumes "(\<exists>j. Thread_ended j None \<in> set (events s)) \<longrightarrow> scrape_queue s = []"
  shows "(\<exists>j. Thread_ended j None \<in> set (events (snd (run_threads curl sched ths s))))
           \<longrightarrow> scrape_queue (snd (run_threads curl sched ths s)) = []"
proof -
  let ?P = "\<lambda>(ths' :: 'a thread list) s'.
              (\<exists>j. Thread_ended j None \<in> set (events s')) \<longrightarrow> scrape_queue s' = []"
  show ?thesis
  proof (rule run_threads_invariant [where P = ?P])
    show "?P ths s" by (rule assms)
  next
    fix i and ths' :: "'a thread list" and s' :: "'a tor_scraper"
    let ?r = "tor_worker_step curl i (ths' ! i) s'"
    assume inv: "?P ths' s'" and i: "i < length ths'" and live: "runnable (ths' ! i)"
    show "?P (ths'[i := fst ?r]) (snd ?r)"
    proof
      assume "\<exists>j. Thread_ended j None \<in> set (events (snd ?r))"
      then obtain j where "Thread_ended j None \<in> set (events (snd ?r))" ..
      then have "Thread_ended j None \<in> set (events s')
                 \<or> Thread_ended j None \<in> set (end_of i (fst ?r))"
        using step_events [OF live, of curl i s'] by auto
      then have "scrape_queue s' = []"
      proof
        assume "Thread_ended j None \<in> set (events s')"
        then show ?thesis using inv by blast
      next
        assume "Thread_ended j None \<in> set (end_of i (fst ?r))"
        then have "fst ?r = Finished"
          by (cases "fst ?r") simp_all
        then show ?thesis using step_finished [OF live, of curl i s'] by simp
      qed
      then show "scrape_queue (snd ?r) = []" by (rule step_queue_empty)
    qed
  qed
qed

section \<open>Tasks on which \<open>_query\<close> raised\<close>

lemma step_aborted:
  assumes "\<forall>(j, t, e) \<in> set (aborted s). setopt curl (url t) (socks_port_offset (config s) + int j) = Some e"
  shows "\<forall>(j, t, e) \<in> set (aborted (snd (tor_worker_step curl i th s))).
           setopt curl (url t) (socks_port_offset (config s) + int j) = Some e"
proof (cases th)
  case (Got t)
  show ?thesis
  proof (cases "setopt curl (url t) (socks_port_offset (config s) + int i)")
    case (Some x)
    show ?thesis
      unfolding Got step_query_raises [OF Some] using assms Some by simp
  next
    case None
    have "aborted (snd (tor_worker_step curl i (Got t) s)) = aborted s"
    proof (cases "fst (call_handler (handler t) (url t) (scrape_context t)
                    (query_result curl (url t) (socks_port_offset (config s) + int i)) [])")
      case N: None
      show ?thesis unfolding step_handler_returns [OF None N] by simp
    next
      case (Some x)
      show ?thesis unfolding step_handler_raises [OF None Some] by simp
    qed
    then show ?thesis unfolding Got using assms by simp
  qed
qed (use assms in \<open>auto simp: get_nowait_def split: list.splits\<close>)

lemma run_threads_aborted:
  assumes "\<forall>(j, t, e) \<in> set (aborted s). setopt curl (url t) (socks_port_offset (config s) + int j) = Some e"
  shows "\<forall>(j, t, e) \<in> set (aborted (snd (run_threads curl sched ths s))).
           setopt curl (url t) (socks_port_offset (config s) + int j) = Some e"
proof -
  let ?P = "\<lambda>(ths' :: 'a thread list) s'. config s' = config s \<and>
     (\<forall>(j, t, e) \<in> set (aborted s'). setopt curl (url t) (socks_port_offset (config s) + int j) = Some e)"
  have "?P (fst (run_threads curl sched ths s)) (snd (run_threads curl sched ths s))"
  proof (rule run_threads_invariant [where P = ?P])
    show "?P ths s" using assms by simp
  next
    fix i and ths' :: "'a thread list" and s' :: "'a tor_scraper"
    let ?r = "tor_worker_step curl i (ths' ! i) s'"
    assume inv: "?P ths' s'"
    have cfg': "config s' = config s" using inv by (rule conjunct1)
    have pre: "\<forall>(j, t, e) \<in> set (aborted s').
                 setopt curl (url t) (socks_port_offset (config s') + int j) = Some e"
      using inv by simp
    have cfg: "config (snd ?r) = config s"
      using cfg' step_static [of curl i "ths' ! i" s'] by simp
    have "\<forall>(j, t, e) \<in> set (aborted (snd ?r)).
            setopt curl (url t) (socks_port_offset (config s) + int j) = Some e"
      using step_aborted [OF pre, of i "ths' ! i"] cfg' by simp
    with cfg show "?P (ths'[i := fst ?r]) (snd ?r)"
      by (rule conjI)
  qed
  then show ?thesis by (rule conjunct2)
qed

section \<open>The start loop: what changes\<close>

lemma start_tor_processes_fields:
  assumes "start_tor_processes launch curl idxs s = (r, s')"
  shows "config s' = config s \<and> scrape_queue s' = scrape_queue s \<and> killed s' = killed s
         \<and> dequeued s' = dequeued s \<and> handled s' = handled s \<and> aborted s' = aborted s"
  using assms
proof (induction idxs arbitrary: s)
  case Nil
  then show ?case by simp
next
  case (Cons index rest)
  obtain r1 s1 where one: "start_tor_process launch curl index s = (r1, s1)"
    by (cases "start_tor_process launch curl index s")
  note f1 = start_tor_process_fields [OF one]
  show ?case
  proof (cases r1)
    case None
    then have "start_tor_processes launch curl rest s1 = (r, s')"
      using Cons.prems one by simp
    then show ?thesis using Cons.IH f1 by simp
  next
    case (Some e)
    then have "s' = s1" using Cons.prems one by simp
    then show ?thesis using f1 by simp
  qed
qed

lemma start_tor_processes_launched:
  assumes "start_tor_processes launch curl idxs s = (r, s')"
  shows "\<exists>k\<le>length idxs. launched s' = launched s @ map (\<lambda>i. (tor_cmd (config s), torrc_of (config s) i)) (take k idxs)
           \<and> (r = None \<longrightarrow> k = length idxs)"
  using assms
proof (induction idxs arbitrary: s)
  case Nil
  then show ?case by simp
next
  case (Cons index rest)
  obtain r1 s1 where one: "start_tor_process launch curl index s = (r1, s1)"
    by (cases "start_tor_process launch curl index s")
  note f1 = start_tor_process_fields [OF one]
  let ?f = "\<lambda>i. (tor_cmd (config s), torrc_of (config s) i)"
  show ?case
  proof (cases r1)
    case None
    then have "start_tor_processes launch curl rest s1 = (r, s')"
      using Cons.prems one by simp
    from Cons.IH [OF this] obtain k where k: "k \<le> length rest"
      "launched s' = launched s1 @ map (\<lambda>i. (tor_cmd (config s1), torrc_of (config s1) i)) (take k rest)"
      "r = None \<longrightarrow> k = length rest"
      by blast
    have "launched s' = launched s @ map ?f (take (Suc k) (index # rest))"
      using k(2) f1 by simp
    then show ?thesis using k(1,3) by (intro exI [of _ "Suc k"]) simp
  next
    case (Some e)
    then have "s' = s1" "r = Some e" using Cons.prems one by simp_all
    then have "launched s' = launched s @ map ?f (take (Suc 0) (index # rest))"
      using f1 by simp
    then show ?thesis using \<open>r = Some e\<close> by (intro exI [of _ "Suc 0"]) simp
  qed
qed

lemma start_tor_processes_procs:
  assumes "start_tor_processes launch curl idxs s = (r, s')"
  shows "(r = None \<longrightarrow> tor_processes s' = tor_processes s @ idxs)
         \<and> (\<exists>j\<le>length idxs. tor_processes s' = tor_processes s @ take j idxs)"
  using assms
proof (induction idxs arbitrary: s)
  case Nil
  then show ?case by simp
next
  case (Cons index rest)
  obtain r1 s1 where one: "start_tor_process launch curl index s = (r1, s1)"
    by (cases "start_tor_process launch curl index s")
  note p1 = start_tor_process_procs [OF one]
  show ?case
  proof (cases r1)
    case None
    then have rest: "start_tor_processes launch curl rest s1 = (r, s')"
      using Cons.prems one by simp
    have s1: "tor_processes s1 = tor_processes s @ [index]" using p1 None by simp
    from Cons.IH [OF rest] obtain j where j: "j \<le> length rest"
      "tor_processes s' = tor_processes s1 @ take j rest"
      "r = None \<longrightarrow> tor_processes s' = tor_processes s1 @ rest"
      by blast
    have "tor_processes s' = tor_processes s @ take (Suc j) (index # rest)"
      using j(2) s1 by simp
    then have "\<exists>j\<le>length (index # rest). tor_processes s' = tor_processes s @ take j (index # rest)"
      using j(1) by (intro exI [of _ "Suc j"]) simp
    then show ?thesis using j(3) s1 by simp
  next
    case (Some e)
    then have eq: "s' = s1" "r = Some e" using Cons.prems one by simp_all
    from p1 consider "tor_processes s1 = tor_processes s"
      | "tor_processes s1 = tor_processes s @ [index]"
      by blast
    then have "\<exists>j\<le>length (index # rest). tor_processes s1 = tor_processes s @ take j (index # rest)"
    proof cases
      case 1
      then show ?thesis by (intro exI [of _ 0]) simp
    next
      case 2
      then show ?thesis by (intro exI [of _ "Suc 0"]) simp
    qed
    then show ?thesis using eq by simp
  qed
qed

lemma start_tor_processes_events:
  assumes "start_tor_processes launch curl idxs s = (r, s')"
  shows "\<exists>new. tor_processes s' = tor_processes s @ new
               \<and> events s' = events s @ map Process_started new"
  using assms
proof (induction idxs arbitrary: s)
  case Nil
  then show ?case by simp
next
  case (Cons index rest)
  obtain r1 s1 where one: "start_tor_process launch curl index s = (r1, s1)"
    by (cases "start_tor_process launch curl index s")
  from start_tor_process_events [OF one] obtain new1 where
    n1: "tor_processes s1 = tor_processes s @ new1" "events s1 = events s @ map Process_started new1"
    by blast
  show ?case
  proof (cases r1)
    case None
    then have "start_tor_processes launch curl rest s1 = (r, s')"
      using Cons.prems one by simp
    from Cons.IH [OF this] obtain new2 where
      "tor_processes s' = tor_processes s1 @ new2" "events s' = events s1 @ map Process_started new2"
      by blast
    then have "tor_processes s' = tor_processes s @ (new1 @ new2)
               \<and> events s' = events s @ map Process_started (new1 @ new2)"
      using n1 by simp
    then show ?thesis by blast
  next
    case (Some e)
    then have "s' = s1" using Cons.prems one by simp
    then show ?thesis using n1 by blast
  qed
qed

section \<open>When a process comes up\<close>




section \<open>\<open>run\<close>: what it leaves behind\<close>


lemma run_raises:
  assumes "start_tor_processes launch curl [0..<nat (thread_count (config s))]
             (s\<lparr>tor_processes := []\<rparr>) = (Some e, s1)"
  shows "run launch curl sched s = (Some e, s1)"
  using assms by (simp add: run_def)

lemma run_returns:
  assumes "start_tor_processes launch curl [0..<nat (thread_count (config s))]
             (s\<lparr>tor_processes := []\<rparr>) = (None, s1)"
  shows "run launch curl sched s =
           (None, (snd (run_threads curl sched (replicate (nat (thread_count (config s))) Starting) s1))
                    \<lparr>killed := killed s1 @ tor_processes s1,
                     events := events (snd (run_threads curl sched
                                 (replicate (nat (thread_count (config s))) Starting) s1))
                               @ map Process_killed (tor_processes s1)\<rparr>)"
  using assms by (simp add: run_def Let_def run_threads_static)

lemma holding_Starting: "holding (replicate n Starting) = []"
  by (induction n) (simp_all add: holding_def)


lemma run_tasks:
  assumes "run launch curl sched s = (r, s')"
  shows "mset (map (fst \<circ> snd) (handled s')) + mset (map (fst \<circ> snd) (aborted s'))
             + mset (scrape_queue s')
           = mset (map (fst \<circ> snd) (handled s)) + mset (map (fst \<circ> snd) (aborted s))
             + mset (scrape_queue s)
         \<and> map snd (dequeued s') @ scrape_queue s' = map snd (dequeued s) @ scrape_queue s
         \<and> config s' = config s"
proof -
  let ?n = "nat (thread_count (config s))"
  obtain r1 s1 where st: "start_tor_processes launch curl [0..<?n] (s\<lparr>tor_processes := []\<rparr>) = (r1, s1)"
    by (cases "start_tor_processes launch curl [0..<?n] (s\<lparr>tor_processes := []\<rparr>)")
  note f = start_tor_processes_fields [OF st]
  show ?thesis
  proof (cases r1)
    case None
    let ?t = "run_threads curl sched (replicate ?n Starting) s1"
    have "run launch curl sched s = (None, (snd ?t)\<lparr>killed := killed s1 @ tor_processes s1,
                 events := events (snd ?t) @ map Process_killed (tor_processes s1)\<rparr>)"
      using st None run_returns by blast
    then have s': "s' = (snd ?t)\<lparr>killed := killed s1 @ tor_processes s1,
                 events := events (snd ?t) @ map Process_killed (tor_processes s1)\<rparr>"
      using assms by simp
    show ?thesis
      unfolding s'
      using run_threads_handled [of curl sched "replicate ?n Starting" s1]
            run_threads_fifo [of curl sched "replicate ?n Starting" s1]
            run_threads_static [of curl sched "replicate ?n Starting" s1] f
      by (simp add: holding_Starting)
  next
    case (Some e)
    then have "run launch curl sched s = (Some e, s1)"
      using st run_raises by blast
    then have "s' = s1" using assms by simp
    then show ?thesis using f by simp
  qed
qed

lemma run_drained:
  assumes "run launch curl sched s = (None, s')"
    and "0 < thread_count (config s)"
    and "\<forall>t \<in> set (scrape_queue s). \<forall>i < nat (thread_count (config s)).
           gets_through curl (config s) i t"
  shows "scrape_queue s' = [] \<and> aborted s' = aborted s"
proof -
  let ?n = "nat (thread_count (config s))"
  obtain r1 s1 where st: "start_tor_processes launch curl [0..<?n] (s\<lparr>tor_processes := []\<rparr>) = (r1, s1)"
    by (cases "start_tor_processes launch curl [0..<?n] (s\<lparr>tor_processes := []\<rparr>)")
  note f = start_tor_processes_fields [OF st]
  have r1: "r1 = None"
  proof (cases r1)
    case (Some e)
    then have "run launch curl sched s = (Some e, s1)" using st run_raises by blast
    then show ?thesis using assms(1) by simp
  qed simp
  let ?t = "run_threads curl sched (replicate ?n Starting) s1"
  have "run launch curl sched s = (None, (snd ?t)\<lparr>killed := killed s1 @ tor_processes s1,
                 events := events (snd ?t) @ map Process_killed (tor_processes s1)\<rparr>)"
    using st r1 run_returns by blast
  then have s': "s' = (snd ?t)\<lparr>killed := killed s1 @ tor_processes s1,
                 events := events (snd ?t) @ map Process_killed (tor_processes s1)\<rparr>"
    using assms(1) by simp
  have "scrape_queue (snd ?t) = [] \<and> aborted (snd ?t) = aborted s"
  proof -
    have a: "\<forall>t \<in> set (holding (replicate ?n Starting)) \<union> set (scrape_queue s1).
               \<forall>i < length (replicate ?n Starting :: 'a thread list). gets_through curl (config s1) i t"
      using assms(3) f by (simp add: holding_Starting)
    have b: "\<forall>th \<in> set (replicate ?n Starting :: 'a thread list). \<forall>e. th \<noteq> Died e" by simp
    have c: "(replicate ?n Starting :: 'a thread list) \<noteq> []" using assms(2) by simp
    have d: "Finished \<notin> set (replicate ?n Starting :: 'a thread list)" by simp
    show ?thesis
      using run_threads_drained [OF a b c d, of sched] run_threads_none_died [OF a b, of sched] f
      by simp
  qed
  then show ?thesis unfolding s' by simp
qed

section \<open>No task at all\<close>

lemma step_no_tasks:
  assumes "scrape_queue s = []" and "held th = []"
  shows "scrape_queue (snd (tor_worker_step curl i th s)) = []
         \<and> held (fst (tor_worker_step curl i th s)) = []
         \<and> handled (snd (tor_worker_step curl i th s)) = handled s
         \<and> dequeued (snd (tor_worker_step curl i th s)) = dequeued s
         \<and> aborted (snd (tor_worker_step curl i th s)) = aborted s"
  using assms by (cases th) (simp_all add: get_nowait_def)

lemma run_threads_no_tasks:
  assumes "scrape_queue s = []"
  shows "fst (run_threads curl sched (replicate n Starting) s) = replicate n Finished
         \<and> handled (snd (run_threads curl sched (replicate n Starting) s)) = handled s
         \<and> dequeued (snd (run_threads curl sched (replicate n Starting) s)) = dequeued s
         \<and> aborted (snd (run_threads curl sched (replicate n Starting) s)) = aborted s"
proof -
  let ?ths = "replicate n Starting :: 'a thread list"
  let ?R = "run_threads curl sched ?ths s"
  have fin: "fst ?R = replicate n Finished"
  proof (cases n)
    case 0
    then show ?thesis by (simp add: run_threads.simps live_threads_def)
  next
    case (Suc m)
    have "\<forall>t \<in> set (holding ?ths) \<union> set (scrape_queue s).
            \<forall>i < length ?ths. gets_through curl (config s) i t"
      using assms by (simp add: holding_Starting)
    moreover have "\<forall>th \<in> set ?ths. \<forall>e. th \<noteq> Died e" by simp
    moreover have "?ths \<noteq> []" using Suc by simp
    moreover have "Finished \<notin> set ?ths" by simp
    ultimately show ?thesis using run_threads_drained [of ?ths s curl sched] by simp
  qed
  let ?P = "\<lambda>ths' s'. scrape_queue s' = [] \<and> holding ths' = []
                        \<and> handled s' = handled s \<and> dequeued s' = dequeued s
                        \<and> aborted s' = aborted s"
  have "?P (fst ?R) (snd ?R)"
  proof (rule run_threads_invariant [where P = ?P])
    show "?P ?ths s" using assms by (simp add: holding_Starting)
  next
    fix i and ths :: "'a thread list" and s' :: "'a tor_scraper"
    let ?r = "tor_worker_step curl i (ths ! i) s'"
    assume inv: "?P ths s'" and i: "i < length ths"
    have h: "held (ths ! i) = []" using inv held_in_holding [OF i] by simp
    note st = step_no_tasks [of s' "ths ! i" curl i, OF conjunct1 [OF inv] h]
    have "set (holding (ths[i := fst ?r])) \<subseteq> set (holding ths) \<union> set (held (fst ?r))"
      by (rule holding_update_subset [OF i])
    then have "holding (ths[i := fst ?r]) = []" using inv st by simp
    then show "?P (ths[i := fst ?r]) (snd ?r)" using inv st by simp
  qed
  then show ?thesis using fin by simp
qed

lemma run_no_tasks:
  assumes "scrape_queue s = []" and "handled s = []" and "dequeued s = []" and "aborted s = []"
  shows "handled (snd (run launch curl sched s)) = [] \<and> dequeued (snd (run launch curl sched s)) = []
         \<and> aborted (snd (run launch curl sched s)) = []"
  using run_tasks [of launch curl sched s "fst (run launch curl sched s)" "snd (run launch curl sched s)"]
        assms
  by simp

section \<open>Threads that died\<close>

lemma run_threads_died_stays:
  assumes "i < length ths" and "ths ! i = Died e"
  shows "fst (run_threads curl sched ths s) ! i = Died e"
proof -
  let ?P = "\<lambda>ths' (s' :: 'a tor_scraper). i < length ths' \<and> ths' ! i = Died e"
  have "?P (fst (run_threads curl sched ths s)) (snd (run_threads curl sched ths s))"
  proof (rule run_threads_invariant [where P = ?P])
    show "?P ths s" using assms by simp
  next
    fix j and ths :: "'a thread list" and s :: "'a tor_scraper"
    assume inv: "?P ths s" and "j < length ths" and live: "runnable (ths ! j)"
    have "j \<noteq> i" using inv live by auto
    then show "?P (ths[j := fst (tor_worker_step curl j (ths ! j) s)])
                 (snd (tor_worker_step curl j (ths ! j) s))"
      using inv by simp
  qed
  then show ?thesis by simp
qed

lemma run_threads_ended:
  "\<forall>th \<in> set (fst (run_threads curl sched ths s)). th = Finished \<or> (\<exists>e. th = Died e)"
  using run_threads_done [of curl sched ths s] done_thread
  unfolding live_threads_empty by blast

section \<open>The public IP line can end the start loop\<close>

lemma failed_probe_raises:
  assumes "public_ip_url (config s) = Some u" and "u \<noteq> []"
    and "perform curl u (socks_port_offset (config s) + int index) = Inl exc"
  shows "fst (start_tor_process launch curl index s) \<noteq> None"
  using assms
  by (auto simp: start_tor_process_def Let_def query_def split: prod.splits option.splits sum.splits)

lemma absent_public_ip_url_raises:
  assumes "public_ip_url (config s) = None"
  shows "fst (start_tor_process launch curl index s) \<noteq> None"
  using assms
  by (auto simp: start_tor_process_def Let_def split: prod.splits option.splits)

section \<open>The result a handler is called with\<close>

lemma step_results:
  assumes "\<forall>(j, t, r) \<in> set (handled s). r = query_result curl (url t) (socks_port_offset (config s) + int j)"
  shows "\<forall>(j, t, r) \<in> set (handled (snd (tor_worker_step curl i th s))).
           r = query_result curl (url t) (socks_port_offset (config (snd (tor_worker_step curl i th s))) + int j)"
  using assms
  by (cases th) (auto simp: get_nowait_def Let_def query_def query_result_def split: step_splits)

lemma run_threads_results:
  assumes "\<forall>(j, t, r) \<in> set (handled s). r = query_result curl (url t) (socks_port_offset (config s) + int j)"
  shows "\<forall>(j, t, r) \<in> set (handled (snd (run_threads curl sched ths s))).
           r = query_result curl (url t) (socks_port_offset (config s) + int j)"
proof -
  let ?P = "\<lambda>(ths' :: 'a thread list) s'. config s' = config s \<and>
     (\<forall>(j, t, r) \<in> set (handled s'). r = query_result curl (url t) (socks_port_offset (config s) + int j))"
  have "?P (fst (run_threads curl sched ths s)) (snd (run_threads curl sched ths s))"
  proof (rule run_threads_invariant [where P = ?P])
    show "?P ths s" using assms by simp
  next
    fix i and ths :: "'a thread list" and s' :: "'a tor_scraper"
    let ?r = "tor_worker_step curl i (ths ! i) s'"
    assume inv: "?P ths s'"
    have pre: "\<forall>(j, t, r) \<in> set (handled s').
                 r = query_result curl (url t) (socks_port_offset (config s') + int j)"
      using inv by simp
    have cfg: "config (snd ?r) = config s"
      using inv step_static [of curl i "ths ! i" s'] by simp
    have "\<forall>(j, t, r) \<in> set (handled (snd ?r)).
            r = query_result curl (url t) (socks_port_offset (config s) + int j)"
      using step_results [OF pre, of i "ths ! i"] cfg by simp
    with cfg show "?P (ths[i := fst ?r]) (snd ?r)"
      by (rule conjI)
  qed
  then show ?thesis by (rule conjunct2)
qed

lemma run_results:
  assumes "run launch curl sched s = (r, s')" and "handled s = []"
  shows "\<forall>(j, t, res) \<in> set (handled s'). res = query_result curl (url t) (socks_port_offset (config s) + int j)"
proof -
  let ?n = "nat (thread_count (config s))"
  obtain r1 s1 where st: "start_tor_processes launch curl [0..<?n] (s\<lparr>tor_processes := []\<rparr>) = (r1, s1)"
    by (cases "start_tor_processes launch curl [0..<?n] (s\<lparr>tor_processes := []\<rparr>)")
  note f = start_tor_processes_fields [OF st]
  show ?thesis
  proof (cases r1)
    case None
    let ?t = "run_threads curl sched (replicate ?n Starting) s1"
    have "run launch curl sched s = (None, (snd ?t)\<lparr>killed := killed s1 @ tor_processes s1,
                 events := events (snd ?t) @ map Process_killed (tor_processes s1)\<rparr>)"
      using st None run_returns by blast
    then have s': "s' = (snd ?t)\<lparr>killed := killed s1 @ tor_processes s1,
                 events := events (snd ?t) @ map Process_killed (tor_processes s1)\<rparr>"
      using assms(1) by simp
    have "\<forall>(j, t, r) \<in> set (handled s1). r = query_result curl (url t) (socks_port_offset (config s1) + int j)"
      using f assms(2) by simp
    from run_threads_results [OF this, of sched "replicate ?n Starting"]
    show ?thesis unfolding s' using f by simp
  next
    case (Some e)
    then have "run launch curl sched s = (Some e, s1)"
      using st run_raises by blast
    then have "s' = s1" using assms(1) by simp
    then show ?thesis using f assms(2) by simp
  qed
qed

section \<open>The launches \<open>run\<close> makes\<close>

lemma run_launched:
  "\<exists>k\<le>nat (thread_count (config s)).
      launched (snd (run launch curl sched s)) =
        launched s @ map (\<lambda>i. (tor_cmd (config s), torrc_of (config s) i)) [0..<k]
      \<and> (fst (run launch curl sched s) = None \<longrightarrow> k = nat (thread_count (config s)))"
proof -
  let ?n = "nat (thread_count (config s))"
  let ?s0 = "s\<lparr>tor_processes := []\<rparr>"
  obtain r1 s1 where st: "start_tor_processes launch curl [0..<?n] ?s0 = (r1, s1)"
    by (cases "start_tor_processes launch curl [0..<?n] ?s0")
  from start_tor_processes_launched [OF st] obtain k where
    raw: "k \<le> length [0..<?n]"
      "launched s1 = launched ?s0 @ map (\<lambda>i. (tor_cmd (config ?s0), torrc_of (config ?s0) i)) (take k [0..<?n])"
      "r1 = None \<longrightarrow> k = length [0..<?n]"
    by blast
  have k: "k \<le> ?n" "r1 = None \<longrightarrow> k = ?n"
    using raw(1,3) by simp_all
  have tk: "launched s1 = launched s @ map (\<lambda>i. (tor_cmd (config s), torrc_of (config s) i)) [0..<k]"
    using raw(2) k(1) by (simp add: take_upt)
  have "launched (snd (run launch curl sched s)) = launched s1 \<and> fst (run launch curl sched s) = r1"
  proof (cases r1)
    case None
    then show ?thesis
      using run_returns [of launch curl s s1 sched] st by (simp add: run_threads_static)
  next
    case (Some e)
    then show ?thesis
      using run_raises [of launch curl s e s1 sched] st by simp
  qed
  then show ?thesis using k tk by (intro exI [of _ k]) simp
qed

lemma torrc_of_example:
  "map (torrc_of \<lparr>thread_count = 3, socks_port_offset = 9250, control_port_offset = 9350,
                   data_directory = d, tor_cmd = c, public_ip_url = p\<rparr>) [0, 1, 2]
   = [\<lparr>SocksPort = ''9250'', ControlPort = ''9350'', DataDirectory = d @ ''0''\<rparr>,
      \<lparr>SocksPort = ''9251'', ControlPort = ''9351'', DataDirectory = d @ ''1''\<rparr>,
      \<lparr>SocksPort = ''9252'', ControlPort = ''9352'', DataDirectory = d @ ''2''\<rparr>]"
  by (simp add: torrc_of_def str_int_def str_nat.simps digit_def)

section \<open>The events of \<open>run\<close>\<close>

lemma run_events:
  assumes "run launch curl sched s = (r, s')"
  shows "(case r of
            None \<Rightarrow> (\<exists>E outs. length outs = nat (thread_count (config s))
                       \<and> mset E = mset (map2 Thread_ended [0..<nat (thread_count (config s))] outs)
                       \<and> events s' = events s @ map Process_started [0..<nat (thread_count (config s))]
                                      @ E @ map Process_killed [0..<nat (thread_count (config s))])
          | Some e \<Rightarrow> events s' = events s @ map Process_started (tor_processes s'))"
proof -
  let ?n = "nat (thread_count (config s))"
  let ?s0 = "s\<lparr>tor_processes := []\<rparr>"
  obtain r1 s1 where st: "start_tor_processes launch curl [0..<?n] ?s0 = (r1, s1)"
    by (cases "start_tor_processes launch curl [0..<?n] ?s0")
  from start_tor_processes_events [OF st] obtain new where
    "tor_processes s1 = tor_processes ?s0 @ new" "events s1 = events ?s0 @ map Process_started new"
    by blast
  then have ev1: "events s1 = events s @ map Process_started (tor_processes s1)"
    by simp
  show ?thesis
  proof (cases r1)
    case None
    let ?t = "run_threads curl sched (replicate ?n Starting) s1"
    have "run launch curl sched s = (None, (snd ?t)\<lparr>killed := killed s1 @ tor_processes s1,
                 events := events (snd ?t) @ map Process_killed (tor_processes s1)\<rparr>)"
      using st None run_returns by blast
    then have r: "r = None" and s': "events s' = events (snd ?t) @ map Process_killed (tor_processes s1)"
      using assms by auto
    have procs: "tor_processes s1 = [0..<?n]"
      using start_tor_processes_procs [OF st] None by simp
    obtain E outs where E: "length outs = ?n" "mset E = mset (map2 Thread_ended [0..<?n] outs)"
      "events (snd ?t) = events s1 @ E"
      using run_threads_ends [of ?n curl sched s1] by blast
    have "events s' = events s @ map Process_started [0..<?n] @ E @ map Process_killed [0..<?n]"
      using s' E(3) ev1 procs by simp
    with E(1,2) show ?thesis unfolding r by auto
  next
    case (Some e)
    then have "run launch curl sched s = (Some e, s1)"
      using st run_raises by blast
    then have "r = Some e" "s' = s1" using assms by simp_all
    then show ?thesis using ev1 by simp
  qed
qed

lemma run_ended:
  assumes "run launch curl sched s = (None, s')" and "k < nat (thread_count (config s))"
  shows "\<exists>out. Thread_ended k out \<in> set (events s')"
proof -
  let ?n = "nat (thread_count (config s))"
  from run_events [OF assms(1)] obtain E outs where E: "length outs = ?n"
    "mset E = mset (map2 Thread_ended [0..<?n] outs)"
    "events s' = events s @ map Process_started [0..<?n] @ E @ map Process_killed [0..<?n]"
    by auto
  have "zip [0..<?n] outs ! k = (k, outs ! k)" "k < length (zip [0..<?n] outs)"
    using assms(2) E(1) by simp_all
  then have "(k, outs ! k) \<in> set (zip [0..<?n] outs)"
    by (metis nth_mem)
  then have "Thread_ended k (outs ! k) \<in> set (map2 Thread_ended [0..<?n] outs)"
    by force
  then have "Thread_ended k (outs ! k) \<in> set E"
    using E(2) mset_eq_setD by blast
  then show ?thesis using E(3) by auto
qed

lemma run_thread_events:
  assumes "run launch curl sched s = (None, s')" and "events s = []"
  shows "\<exists>s1. (\<forall>ev. ev \<in> set (events s1) \<longrightarrow> (\<exists>k. ev = Process_started k))
              \<and> config s1 = config s \<and> handled s1 = handled s \<and> aborted s1 = aborted s
              \<and> scrape_queue s1 = scrape_queue s
              \<and> (\<forall>j out. Thread_ended j out \<in> set (events s')
                    \<longleftrightarrow> Thread_ended j out \<in> set (events (snd (run_threads curl sched
                           (replicate (nat (thread_count (config s))) Starting) s1))))
              \<and> handled s' = handled (snd (run_threads curl sched
                           (replicate (nat (thread_count (config s))) Starting) s1))
              \<and> aborted s' = aborted (snd (run_threads curl sched
                           (replicate (nat (thread_count (config s))) Starting) s1))
              \<and> scrape_queue s' = scrape_queue (snd (run_threads curl sched
                           (replicate (nat (thread_count (config s))) Starting) s1))"
proof -
  let ?n = "nat (thread_count (config s))"
  let ?s0 = "s\<lparr>tor_processes := []\<rparr>"
  obtain r1 s1 where st: "start_tor_processes launch curl [0..<?n] ?s0 = (r1, s1)"
    by (cases "start_tor_processes launch curl [0..<?n] ?s0")
  note f = start_tor_processes_fields [OF st]
  have r1: "r1 = None"
  proof (cases r1)
    case (Some e)
    then have "run launch curl sched s = (Some e, s1)" using st run_raises by blast
    then show ?thesis using assms(1) by simp
  qed simp
  from start_tor_processes_events [OF st] obtain new where
    "events s1 = events ?s0 @ map Process_started new"
    by blast
  then have ev1: "\<forall>ev. ev \<in> set (events s1) \<longrightarrow> (\<exists>k. ev = Process_started k)"
    using assms(2) by auto
  let ?t = "run_threads curl sched (replicate ?n Starting) s1"
  have "run launch curl sched s = (None, (snd ?t)\<lparr>killed := killed s1 @ tor_processes s1,
                 events := events (snd ?t) @ map Process_killed (tor_processes s1)\<rparr>)"
    using st r1 run_returns by blast
  then have s': "s' = (snd ?t)\<lparr>killed := killed s1 @ tor_processes s1,
                 events := events (snd ?t) @ map Process_killed (tor_processes s1)\<rparr>"
    using assms(1) by simp
  have "\<forall>j out. Thread_ended j out \<in> set (events s') \<longleftrightarrow> Thread_ended j out \<in> set (events (snd ?t))"
    unfolding s' by auto
  moreover have "handled s' = handled (snd ?t)" "aborted s' = aborted (snd ?t)"
    "scrape_queue s' = scrape_queue (snd ?t)"
    unfolding s' by simp_all
  moreover have "config s1 = config s" "handled s1 = handled s" "aborted s1 = aborted s"
    "scrape_queue s1 = scrape_queue s"
    using f by simp_all
  ultimately show ?thesis using ev1 by (intro exI [of _ s1] conjI)
qed

lemma own_fault_cong:
  "handled s' = handled s \<Longrightarrow> aborted s' = aborted s \<Longrightarrow> own_fault s' j e = own_fault s j e"
  by (simp add: own_fault_def)

lemma run_own_fault:
  assumes "run launch curl sched s = (None, s')" and "events s = []"
    and "Thread_ended j (Some e) \<in> set (events s')"
  shows "own_fault s' j e"
proof -
  let ?n = "nat (thread_count (config s))"
  from run_thread_events [OF assms(1,2)] obtain s1 where
    s1: "\<forall>ev. ev \<in> set (events s1) \<longrightarrow> (\<exists>k. ev = Process_started k)"
    and ev: "\<forall>j out. Thread_ended j out \<in> set (events s')
                    \<longleftrightarrow> Thread_ended j out \<in> set (events (snd (run_threads curl sched (replicate ?n Starting) s1)))"
    and h: "handled s' = handled (snd (run_threads curl sched (replicate ?n Starting) s1))"
    and a: "aborted s' = aborted (snd (run_threads curl sched (replicate ?n Starting) s1))"
    by blast
  have "\<forall>j e. Thread_ended j (Some e) \<in> set (events s1) \<longrightarrow> own_fault s1 j e"
    using s1 by blast
  from run_threads_own_fault [OF this, of curl sched "replicate ?n Starting"]
  have "own_fault (snd (run_threads curl sched (replicate ?n Starting) s1)) j e"
    using assms(3) ev by blast
  then show ?thesis
    using own_fault_cong [OF h a] by simp
qed

lemma run_break_empty:
  assumes "run launch curl sched s = (None, s')" and "events s = []"
    and "Thread_ended j None \<in> set (events s')"
  shows "scrape_queue s' = []"
proof -
  let ?n = "nat (thread_count (config s))"
  from run_thread_events [OF assms(1,2)] obtain s1 where
    s1: "\<forall>ev. ev \<in> set (events s1) \<longrightarrow> (\<exists>k. ev = Process_started k)"
    and ev: "\<forall>j out. Thread_ended j out \<in> set (events s')
                    \<longleftrightarrow> Thread_ended j out \<in> set (events (snd (run_threads curl sched (replicate ?n Starting) s1)))"
    and q: "scrape_queue s' = scrape_queue (snd (run_threads curl sched (replicate ?n Starting) s1))"
    by blast
  have "(\<exists>j. Thread_ended j None \<in> set (events s1)) \<longrightarrow> scrape_queue s1 = []"
    using s1 by blast
  from run_threads_break_empty [OF this, of curl sched "replicate ?n Starting"]
  show ?thesis
    using assms(3) ev q by auto
qed

lemma run_aborted:
  assumes "run launch curl sched s = (r, s')" and "aborted s = []"
  shows "\<forall>(j, t, e) \<in> set (aborted s'). setopt curl (url t) (socks_port_offset (config s) + int j) = Some e"
proof -
  let ?n = "nat (thread_count (config s))"
  obtain r1 s1 where st: "start_tor_processes launch curl [0..<?n] (s\<lparr>tor_processes := []\<rparr>) = (r1, s1)"
    by (cases "start_tor_processes launch curl [0..<?n] (s\<lparr>tor_processes := []\<rparr>)")
  note f = start_tor_processes_fields [OF st]
  show ?thesis
  proof (cases r1)
    case None
    let ?t = "run_threads curl sched (replicate ?n Starting) s1"
    have "run launch curl sched s = (None, (snd ?t)\<lparr>killed := killed s1 @ tor_processes s1,
                 events := events (snd ?t) @ map Process_killed (tor_processes s1)\<rparr>)"
      using st None run_returns by blast
    then have s': "s' = (snd ?t)\<lparr>killed := killed s1 @ tor_processes s1,
                 events := events (snd ?t) @ map Process_killed (tor_processes s1)\<rparr>"
      using assms(1) by simp
    have "\<forall>(j, t, e) \<in> set (aborted s1). setopt curl (url t) (socks_port_offset (config s1) + int j) = Some e"
      using f assms(2) by simp
    from run_threads_aborted [OF this, of sched "replicate ?n Starting"]
    show ?thesis unfolding s' using f by simp
  next
    case (Some e)
    then have "run launch curl sched s = (Some e, s1)"
      using st run_raises by blast
    then have "s' = s1" using assms(1) by simp
    then show ?thesis using f assms(2) by simp
  qed
qed

section \<open>The claims\<close>

subsection \<open>C1\<close>

text \<open>
  C1, amended: for the tasks enqueued by \<open>add_scrape\<close> before \<open>run\<close>, whenever \<open>run\<close>
  returns, the tasks handled, the tasks on which \<open>_query\<close> raised (their worker ended
  before it called the handler) and the tasks still queued are together exactly the tasks
  enqueued, and the tasks taken from the queue followed by the tasks still queued are
  the tasks enqueued, in order; so no task is handled twice and none disappears
  unaccounted. \<open>_query\<close> raised on a task only if the calls before its \<open>try\<close> raise on the
  task's URL and the worker's port. If there is at least one worker and every worker
  gets through every task (\<open>_query\<close> does not raise on the task's URL and the worker's
  port, and the handler returns on the value \<open>_query\<close> returns), the queue is empty,
  \<open>_query\<close> raised on no task and every task was handled exactly once. With no task
  enqueued, no handler is called and nothing is taken from the queue, and every worker
  finds the queue empty and ends by \<open>break\<close>.
\<close>

theorem run_handles_tasks:
  fixes s s' :: "'c tor_scraper"
  assumes "run launch curl sched (add_scrapes calls (TorScraper cfg)) = (None, s')"
  shows "mset (map (fst \<circ> snd) (handled s')) + mset (map (fst \<circ> snd) (aborted s'))
             + mset (scrape_queue s')
           = mset (scrape_queue (add_scrapes calls (TorScraper cfg)))
         \<and> map snd (dequeued s') @ scrape_queue s' = scrape_queue (add_scrapes calls (TorScraper cfg))
         \<and> (\<forall>(j, task, e) \<in> set (aborted s').
               setopt curl (url task) (socks_port_offset cfg + int j) = Some e)
         \<and> (0 < thread_count cfg
              \<and> (\<forall>task \<in> set (scrape_queue (add_scrapes calls (TorScraper cfg))).
                    \<forall>i < nat (thread_count cfg). gets_through curl cfg i task)
              \<longrightarrow> scrape_queue s' = [] \<and> aborted s' = []
                  \<and> mset (map (fst \<circ> snd) (handled s')) = mset (scrape_queue (add_scrapes calls (TorScraper cfg))))
         \<and> handled (snd (run launch curl sched (TorScraper cfg :: 'c tor_scraper))) = []
         \<and> dequeued (snd (run launch curl sched (TorScraper cfg :: 'c tor_scraper))) = []
         \<and> fst (run_threads curl sched (replicate n Starting) (s\<lparr>scrape_queue := []\<rparr>))
             = replicate n Finished
         \<and> handled (snd (run_threads curl sched (replicate n Starting) (s\<lparr>scrape_queue := []\<rparr>)))
             = handled s"
proof -
  let ?s = "add_scrapes calls (TorScraper cfg) :: 'c tor_scraper"
  have init: "handled ?s = []" "dequeued ?s = []" "config ?s = cfg" "aborted ?s = []"
    by (simp_all add: add_scrapes_other_fields TorScraper_def)
  have acc: "mset (map (fst \<circ> snd) (handled s')) + mset (map (fst \<circ> snd) (aborted s'))
               + mset (scrape_queue s') = mset (scrape_queue ?s)"
    using run_tasks [OF assms] init by simp
  have fifo: "map snd (dequeued s') @ scrape_queue s' = scrape_queue ?s"
    using run_tasks [OF assms] init by simp
  have ab: "\<forall>(j, task, e) \<in> set (aborted s').
               setopt curl (url task) (socks_port_offset cfg + int j) = Some e"
    using run_aborted [OF assms init(4)] init(3) by simp
  have drained: "scrape_queue s' = [] \<and> aborted s' = []"
    if "0 < thread_count cfg"
       "\<forall>task \<in> set (scrape_queue ?s). \<forall>i < nat (thread_count cfg). gets_through curl cfg i task"
    using run_drained [OF assms] that init by simp
  have all: "0 < thread_count cfg
              \<and> (\<forall>task \<in> set (scrape_queue ?s). \<forall>i < nat (thread_count cfg). gets_through curl cfg i task)
              \<longrightarrow> scrape_queue s' = [] \<and> aborted s' = []
                  \<and> mset (map (fst \<circ> snd) (handled s')) = mset (scrape_queue ?s)"
  proof
    assume a: "0 < thread_count cfg
              \<and> (\<forall>task \<in> set (scrape_queue ?s). \<forall>i < nat (thread_count cfg). gets_through curl cfg i task)"
    then have d: "scrape_queue s' = [] \<and> aborted s' = []"
      using drained by blast
    then have "mset (map (fst \<circ> snd) (handled s')) = mset (scrape_queue ?s)"
      using acc by simp
    with d show "scrape_queue s' = [] \<and> aborted s' = []
                  \<and> mset (map (fst \<circ> snd) (handled s')) = mset (scrape_queue ?s)"
      by simp
  qed
  have none: "handled (snd (run launch curl sched (TorScraper cfg :: 'c tor_scraper))) = []
              \<and> dequeued (snd (run launch curl sched (TorScraper cfg :: 'c tor_scraper))) = []"
    using run_no_tasks [of "TorScraper cfg :: 'c tor_scraper" launch curl sched]
    by (simp add: TorScraper_def)
  have idle: "fst (run_threads curl sched (replicate n Starting) (s\<lparr>scrape_queue := []\<rparr>))
             = replicate n Finished
         \<and> handled (snd (run_threads curl sched (replicate n Starting) (s\<lparr>scrape_queue := []\<rparr>)))
             = handled s"
    using run_threads_no_tasks [of "s\<lparr>scrape_queue := []\<rparr>" curl sched n] by simp
  show ?thesis
    using acc fifo ab all none idle by (intro conjI) simp_all
qed

theorem run_handles_tasks_witness:
  "scrape_queue (snd (run launch_ok fetch_ok [1, 0, 1, 1, 0]
      (add_scrapes [(''a'', None, None), (''b'', Some (), None), (''a'', None, None)]
         (TorScraper (small_config 2) :: unit tor_scraper)))) = []
   \<and> aborted (snd (run launch_ok fetch_ok [1, 0, 1, 1, 0]
      (add_scrapes [(''a'', None, None), (''b'', Some (), None), (''a'', None, None)]
         (TorScraper (small_config 2) :: unit tor_scraper)))) = []
   \<and> mset (map (fst \<circ> snd) (handled (snd (run launch_ok fetch_ok [1, 0, 1, 1, 0]
      (add_scrapes [(''a'', None, None), (''b'', Some (), None), (''a'', None, None)]
         (TorScraper (small_config 2) :: unit tor_scraper))))))
     = mset (scrape_queue (add_scrapes [(''a'', None, None), (''b'', Some (), None), (''a'', None, None)]
         (TorScraper (small_config 2) :: unit tor_scraper)))"
proof -
  let ?calls = "[(''a'', None, None), (''b'', Some (), None), (''a'', None, None)]
                  :: (string \<times> unit option \<times> unit handler option) list"
  let ?s = "add_scrapes ?calls (TorScraper (small_config 2))"
  let ?run = "run launch_ok fetch_ok [1, 0, 1, 1, 0] ?s"
  have "fst ?run = None" by code_simp
  then have ret: "?run = (None, snd ?run)" by (simp add: prod_eq_iff)
  have pos: "0 < thread_count (small_config 2)" by (simp add: small_config_def)
  have ok: "\<forall>task \<in> set (scrape_queue ?s). \<forall>i < nat (thread_count (small_config 2)).
              gets_through fetch_ok (small_config 2) i task"
    by (simp add: scrape_queue_add_scrapes TorScraper_def gets_through_def fetch_ok_def
          call_handler_def)
  show ?thesis
    using run_handles_tasks [OF ret, THEN conjunct2, THEN conjunct2, THEN conjunct2, THEN conjunct1]
          pos ok
    by simp
qed

text \<open>
  C1 as stated fails: with one worker and two tasks of which the first has a handler
  that raises, \<open>run\<close> returns and the second task was never handled; it is still in
  the queue. And with a pycurl that refuses a URL with a NUL byte, a first task with
  such a URL ends the worker inside \<open>_query\<close>: no handler at all is called, and the
  second task is still in the queue.
\<close>

theorem raising_handler_loses_task:
  "fst (run launch_ok fetch_ok []
         (add_scrapes [(''a'', None, Some raising), (''b'', None, None)] (TorScraper (small_config 1)))) = None
   \<and> map (url \<circ> fst \<circ> snd) (handled (snd (run launch_ok fetch_ok []
         (add_scrapes [(''a'', None, Some raising), (''b'', None, None)] (TorScraper (small_config 1)))))) = [''a'']
   \<and> map url (scrape_queue (snd (run launch_ok fetch_ok []
         (add_scrapes [(''a'', None, Some raising), (''b'', None, None)] (TorScraper (small_config 1)))))) = [''b'']
   \<and> fst (run launch_ok fetch_checked []
         (add_scrapes [([CHR ''a'', CHR 0x00], None, None), (''b'', None, None)]
            (TorScraper (small_config 1) :: unit tor_scraper))) = None
   \<and> map (url \<circ> fst \<circ> snd) (handled (snd (run launch_ok fetch_checked []
         (add_scrapes [([CHR ''a'', CHR 0x00], None, None), (''b'', None, None)]
            (TorScraper (small_config 1) :: unit tor_scraper))))) = []
   \<and> map (url \<circ> fst \<circ> snd) (aborted (snd (run launch_ok fetch_checked []
         (add_scrapes [([CHR ''a'', CHR 0x00], None, None), (''b'', None, None)]
            (TorScraper (small_config 1) :: unit tor_scraper))))) = [[CHR ''a'', CHR 0x00]]
   \<and> map url (scrape_queue (snd (run launch_ok fetch_checked []
         (add_scrapes [([CHR ''a'', CHR 0x00], None, None), (''b'', None, None)]
            (TorScraper (small_config 1) :: unit tor_scraper))))) = [''b'']"
  by code_simp

subsection \<open>C2\<close>




subsection \<open>C3\<close>

text \<open>
  C3, amended: \<open>_query\<close> raises exactly when one of the calls before its \<open>try\<close> raises
  (on the URL or the port), and then that exception; otherwise it returns the body or,
  on a \<open>pycurl.error\<close> of \<open>perform()\<close>, \<open>None\<close>. After a fetch that failed in \<open>perform()\<close>
  the handler is called with \<open>None\<close>, and the worker goes back to the queue, which is
  untouched, provided the handler returns on \<open>None\<close>; in general a worker goes on after
  a task exactly when it gets through the task. So if there is at least one worker and
  every worker gets through every task, every enqueued task is handled exactly once by
  the time \<open>run\<close> returns, the tasks whose fetch failed with the result \<open>None\<close> and the
  others with the body.
\<close>

theorem failed_fetch_is_a_value:
  "fst (query curl u port lg)
     = (case setopt curl u port of
          Some e \<Rightarrow> Inl e
        | None \<Rightarrow> Inr (case perform curl u port of Inl exc \<Rightarrow> None | Inr body \<Rightarrow> Some body))
   \<and> (setopt curl (url t) (socks_port_offset (config s) + int i) = None
        \<and> perform curl (url t) (socks_port_offset (config s) + int i) = Inl exc
        \<and> fst (call_handler (handler t) (url t) (scrape_context t) None []) = None
      \<longrightarrow> fst (tor_worker_step curl i (Got t) s) = Looping
          \<and> handled (snd (tor_worker_step curl i (Got t) s)) = handled s @ [(i, t, None)]
          \<and> scrape_queue (snd (tor_worker_step curl i (Got t) s)) = scrape_queue s)
   \<and> (fst (tor_worker_step curl i (Got t) s) = Looping \<longleftrightarrow> gets_through curl (config s) i t)
   \<and> (run launch curl sched (add_scrapes calls (TorScraper cfg)) = (None, s')
        \<and> 0 < thread_count cfg
        \<and> (\<forall>task \<in> set (scrape_queue (add_scrapes calls (TorScraper cfg))).
              \<forall>k < nat (thread_count cfg). gets_through curl cfg k task)
      \<longrightarrow> mset (map (fst \<circ> snd) (handled s')) = mset (scrape_queue (add_scrapes calls (TorScraper cfg)))
          \<and> (\<forall>(j, task, r) \<in> set (handled s').
                r = (case perform curl (url task) (socks_port_offset cfg + int j) of
                       Inl exc \<Rightarrow> None | Inr body \<Rightarrow> Some body)))"
proof -
  let ?s = "add_scrapes calls (TorScraper cfg)"
  let ?port = "socks_port_offset (config s) + int i"
  have c1: "fst (query curl u port lg)
     = (case setopt curl u port of
          Some e \<Rightarrow> Inl e
        | None \<Rightarrow> Inr (case perform curl u port of Inl exc \<Rightarrow> None | Inr body \<Rightarrow> Some body))"
    by (simp add: query_def split: option.splits sum.splits)
  have c2: "setopt curl (url t) ?port = None \<and> perform curl (url t) ?port = Inl exc
        \<and> fst (call_handler (handler t) (url t) (scrape_context t) None []) = None
      \<longrightarrow> fst (tor_worker_step curl i (Got t) s) = Looping
          \<and> handled (snd (tor_worker_step curl i (Got t) s)) = handled s @ [(i, t, None)]
          \<and> scrape_queue (snd (tor_worker_step curl i (Got t) s)) = scrape_queue s"
  proof
    assume a: "setopt curl (url t) ?port = None \<and> perform curl (url t) ?port = Inl exc
        \<and> fst (call_handler (handler t) (url t) (scrape_context t) None []) = None"
    then have res: "query_result curl (url t) ?port = None"
      by (simp add: query_result_def)
    have so: "setopt curl (url t) ?port = None" using a by simp
    have h: "fst (call_handler (handler t) (url t) (scrape_context t) (query_result curl (url t) ?port) []) = None"
      using a res by simp
    show "fst (tor_worker_step curl i (Got t) s) = Looping
          \<and> handled (snd (tor_worker_step curl i (Got t) s)) = handled s @ [(i, t, None)]
          \<and> scrape_queue (snd (tor_worker_step curl i (Got t) s)) = scrape_queue s"
      unfolding step_handler_returns [OF so h] using res by simp
  qed
  have c3: "fst (tor_worker_step curl i (Got t) s) = Looping \<longleftrightarrow> gets_through curl (config s) i t"
    by (rule gets_through_step)
  have c4: "run launch curl sched ?s = (None, s') \<and> 0 < thread_count cfg
        \<and> (\<forall>task \<in> set (scrape_queue ?s). \<forall>k < nat (thread_count cfg). gets_through curl cfg k task)
      \<longrightarrow> mset (map (fst \<circ> snd) (handled s')) = mset (scrape_queue ?s)
          \<and> (\<forall>(j, task, r) \<in> set (handled s').
                r = (case perform curl (url task) (socks_port_offset cfg + int j) of
                       Inl exc \<Rightarrow> None | Inr body \<Rightarrow> Some body))"
  proof
    assume a: "run launch curl sched ?s = (None, s') \<and> 0 < thread_count cfg
        \<and> (\<forall>task \<in> set (scrape_queue ?s). \<forall>k < nat (thread_count cfg). gets_through curl cfg k task)"
    have init: "handled ?s = []" "config ?s = cfg" "aborted ?s = []"
      by (simp_all add: add_scrapes_other_fields TorScraper_def)
    have run: "run launch curl sched ?s = (None, s')" using a by simp
    have "scrape_queue s' = [] \<and> aborted s' = []"
      using run_drained [OF run] a init by simp
    then have "mset (map (fst \<circ> snd) (handled s')) = mset (scrape_queue ?s)"
      using run_tasks [OF run] init by simp
    moreover have "\<forall>(j, task, r) \<in> set (handled s').
                r = (case perform curl (url task) (socks_port_offset cfg + int j) of
                       Inl exc \<Rightarrow> None | Inr body \<Rightarrow> Some body)"
      using run_results [OF run init(1)] init(2) by (simp add: query_result_def)
    ultimately show "mset (map (fst \<circ> snd) (handled s')) = mset (scrape_queue ?s)
          \<and> (\<forall>(j, task, r) \<in> set (handled s').
                r = (case perform curl (url task) (socks_port_offset cfg + int j) of
                       Inl exc \<Rightarrow> None | Inr body \<Rightarrow> Some body))"
      by (rule conjI)
  qed
  show ?thesis using c1 c2 c3 c4 by (intro conjI)
qed

theorem failed_fetch_is_a_value_witness:
  "fst (tor_worker_step fetch_bad 0 (Got \<lparr>url = ''bad'', scrape_context = None, handler = Default_handler\<rparr>)
          (TorScraper (small_config 1) :: unit tor_scraper)) = Looping
   \<and> handled (snd (tor_worker_step fetch_bad 0
          (Got \<lparr>url = ''bad'', scrape_context = None, handler = Default_handler\<rparr>)
          (TorScraper (small_config 1) :: unit tor_scraper)))
     = [(0, \<lparr>url = ''bad'', scrape_context = None, handler = Default_handler\<rparr>, None)]
   \<and> mset (map (fst \<circ> snd) (handled (snd (run launch_ok fetch_bad []
         (add_scrapes [(''a'', None, None), (''bad'', None, None), (''c'', None, None)]
            (TorScraper (small_config 1) :: unit tor_scraper))))))
     = mset (scrape_queue (add_scrapes [(''a'', None, None), (''bad'', None, None), (''c'', None, None)]
            (TorScraper (small_config 1) :: unit tor_scraper)))
   \<and> map (\<lambda>(j, t, r). (url t, r)) (handled (snd (run launch_ok fetch_bad []
         (add_scrapes [(''a'', None, None), (''bad'', None, None), (''c'', None, None)]
            (TorScraper (small_config 1) :: unit tor_scraper)))))
     = [(''a'', Some ''<html>a</html>''), (''bad'', None), (''c'', Some ''<html>c</html>'')]"
proof -
  let ?t = "\<lparr>url = ''bad'', scrape_context = None, handler = Default_handler\<rparr> :: unit scrape"
  let ?fresh = "TorScraper (small_config 1) :: unit tor_scraper"
  let ?s = "add_scrapes [(''a'', None, None), (''bad'', None, None), (''c'', None, None)]
            (TorScraper (small_config 1) :: unit tor_scraper)"
  let ?run = "run launch_ok fetch_bad [] ?s"
  note facts = failed_fetch_is_a_value
     [of fetch_bad _ _ _ ?t ?fresh 0 "Curl_error 28 ''Timeout was reached''" launch_ok "[]"
         "[(''a'', None, None), (''bad'', None, None), (''c'', None, None)]" "small_config 1" "snd ?run"]
  have "fst ?run = None" by code_simp
  then have ret: "?run = (None, snd ?run)" by (simp add: prod_eq_iff)
  have pos: "0 < thread_count (small_config 1)" by (simp add: small_config_def)
  have ok: "\<forall>task \<in> set (scrape_queue ?s). \<forall>k < nat (thread_count (small_config 1)).
              gets_through fetch_bad (small_config 1) k task"
    by (simp add: scrape_queue_add_scrapes TorScraper_def gets_through_def fetch_bad_def
          call_handler_def)
  have failed: "setopt fetch_bad (url ?t) (socks_port_offset (config ?fresh) + int 0) = None
        \<and> perform fetch_bad (url ?t) (socks_port_offset (config ?fresh) + int 0)
            = Inl (Curl_error 28 ''Timeout was reached'')
        \<and> fst (call_handler (handler ?t) (url ?t) (scrape_context ?t) None []) = None"
    by (simp add: fetch_bad_def call_handler_def)
  have h0: "handled ?fresh = []" by (simp add: TorScraper_def)
  have w1: "fst (tor_worker_step fetch_bad 0 (Got ?t) ?fresh) = Looping
            \<and> handled (snd (tor_worker_step fetch_bad 0 (Got ?t) ?fresh)) = [(0, ?t, None)]"
    using facts [THEN conjunct2, THEN conjunct1] failed h0 by simp
  have w2: "mset (map (fst \<circ> snd) (handled (snd ?run))) = mset (scrape_queue ?s)"
    using facts [THEN conjunct2, THEN conjunct2, THEN conjunct2] ret pos ok by blast
  have w3: "map (\<lambda>(j, t, r). (url t, r)) (handled (snd ?run))
     = [(''a'', Some ''<html>a</html>''), (''bad'', None), (''c'', Some ''<html>c</html>'')]"
    by code_simp
  show ?thesis using w1 w2 w3 by (intro conjI) simp_all
qed

text \<open>
  C3 as stated fails. \<open>_query\<close> does raise: with a pycurl that refuses a URL with a NUL
  byte and a port above 65535 in \<open>setopt\<close>, the exception leaves \<open>_query\<close>; in a worker
  it ends the thread, so with one worker the task behind stays in the queue, and no
  handler is called. And a fetch that fails in \<open>perform()\<close> can keep the other tasks
  from being handled: with one worker and a handler that raises on \<open>None\<close>, the failed
  fetch of the first task ends the worker and the second task stays in the queue, while
  with the same tasks and handlers and no failing fetch both are handled.
\<close>

theorem failed_fetch_aborts_worker:
  "fst (query fetch_checked [CHR ''a'', CHR 0x00] 20 ([] :: unit log_record list))
     = Inl (Setopt_error ''invalid arguments to setopt'')
   \<and> fst (query fetch_checked ''a'' 70000 ([] :: unit log_record list))
     = Inl (Setopt_error ''invalid arguments to setopt'')
   \<and> fst (run launch_ok fetch_checked []
         (add_scrapes [([CHR ''a'', CHR 0x00], None, None), (''c'', None, None)]
            (TorScraper (small_config 1) :: unit tor_scraper))) = None
   \<and> map (url \<circ> fst \<circ> snd) (handled (snd (run launch_ok fetch_checked []
         (add_scrapes [([CHR ''a'', CHR 0x00], None, None), (''c'', None, None)]
            (TorScraper (small_config 1) :: unit tor_scraper))))) = []
   \<and> map url (scrape_queue (snd (run launch_ok fetch_checked []
         (add_scrapes [([CHR ''a'', CHR 0x00], None, None), (''c'', None, None)]
            (TorScraper (small_config 1) :: unit tor_scraper))))) = [''c'']
   \<and> fst (run launch_ok fetch_bad []
         (add_scrapes [(''bad'', None, Some needs_result), (''c'', None, Some needs_result)]
            (TorScraper (small_config 1)))) = None
   \<and> map (\<lambda>(j, t, r). (url t, r)) (handled (snd (run launch_ok fetch_bad []
         (add_scrapes [(''bad'', None, Some needs_result), (''c'', None, Some needs_result)]
            (TorScraper (small_config 1)))))) = [(''bad'', None)]
   \<and> map url (scrape_queue (snd (run launch_ok fetch_bad []
         (add_scrapes [(''bad'', None, Some needs_result), (''c'', None, Some needs_result)]
            (TorScraper (small_config 1)))))) = [''c'']
   \<and> map (url \<circ> fst \<circ> snd) (handled (snd (run launch_ok fetch_ok []
         (add_scrapes [(''bad'', None, Some needs_result), (''c'', None, Some needs_result)]
            (TorScraper (small_config 1)))))) = [''bad'', ''c'']"
  by code_simp

subsection \<open>C4\<close>

text \<open>
  C4, amended: an exception of a handler is not caught. It leaves \<open>_tor_worker\<close> and
  ends that thread, which takes no further task; the scraper logs nothing about it (the
  log gains the line written before the fetch and the fetch's own error line, if any).
  The queue is not corrupted: the tasks not yet taken stay queued in order. The other
  workers are not affected. Whenever \<open>run\<close> returns, every worker has ended, by \<open>break\<close>
  or by an exception; a worker ended by an exception only if that exception came from
  a task of its own (the task's handler raised it on the value it was called with, or
  \<open>_query\<close> raised it on the task); and a worker ended by \<open>break\<close> only on an empty queue.
  So a worker with no fault on a task of its own kept taking tasks until the queue was
  empty, whatever happened in the other workers.
\<close>

theorem raising_handler_ends_worker:
  "(handler t = User_handler f
      \<and> setopt curl (url t) (socks_port_offset (config s) + int i) = None
      \<and> f (url t) (scrape_context t)
            (query_result curl (url t) (socks_port_offset (config s) + int i)) = Some e
    \<longrightarrow> fst (tor_worker_step curl i (Got t) s) = Died e
        \<and> scrape_queue (snd (tor_worker_step curl i (Got t) s)) = scrape_queue s
        \<and> logger (snd (tor_worker_step curl i (Got t) s)) =
            snd (query curl (url t) (socks_port_offset (config s) + int i)
                  (logger s @ [(DEBUG, ''Scraping _tor_worker:'' @ str_int (int i) @ '' url:'' @ url t, [])])))
   \<and> (j < length ths \<and> ths ! j = Died e' \<longrightarrow> fst (run_threads curl sched ths s) ! j = Died e')
   \<and> (\<forall>th \<in> set (fst (run_threads curl sched ths s)). th = Finished \<or> (\<exists>x. th = Died x))
   \<and> (Finished \<notin> set ths \<and> Finished \<in> set (fst (run_threads curl sched ths s))
        \<longrightarrow> scrape_queue (snd (run_threads curl sched ths s)) = [])
   \<and> map snd (dequeued (snd (run_threads curl sched ths s))) @ scrape_queue (snd (run_threads curl sched ths s))
       = map snd (dequeued s) @ scrape_queue s
   \<and> (run launch curl sched (add_scrapes calls (TorScraper cfg)) = (None, s')
      \<longrightarrow> (\<forall>k < nat (thread_count cfg). \<exists>out. Thread_ended k out \<in> set (events s'))
          \<and> (\<forall>k x. Thread_ended k (Some x) \<in> set (events s') \<longrightarrow> own_fault s' k x)
          \<and> ((\<exists>k. Thread_ended k None \<in> set (events s')) \<longrightarrow> scrape_queue s' = [])
          \<and> (\<forall>k < nat (thread_count cfg). (\<forall>x. \<not> own_fault s' k x)
                \<longrightarrow> Thread_ended k None \<in> set (events s') \<and> scrape_queue s' = []))"
proof -
  let ?port = "socks_port_offset (config s) + int i"
  let ?R = "run_threads curl sched ths s"
  let ?new = "add_scrapes calls (TorScraper cfg)"
  have c1: "handler t = User_handler f
      \<and> setopt curl (url t) ?port = None
      \<and> f (url t) (scrape_context t) (query_result curl (url t) ?port) = Some e
    \<longrightarrow> fst (tor_worker_step curl i (Got t) s) = Died e
        \<and> scrape_queue (snd (tor_worker_step curl i (Got t) s)) = scrape_queue s
        \<and> logger (snd (tor_worker_step curl i (Got t) s)) =
            snd (query curl (url t) ?port
                  (logger s @ [(DEBUG, ''Scraping _tor_worker:'' @ str_int (int i) @ '' url:'' @ url t, [])]))"
  proof
    assume a: "handler t = User_handler f
      \<and> setopt curl (url t) ?port = None
      \<and> f (url t) (scrape_context t) (query_result curl (url t) ?port) = Some e"
    have so: "setopt curl (url t) ?port = None" using a by simp
    have h: "fst (call_handler (handler t) (url t) (scrape_context t) (query_result curl (url t) ?port) []) = Some e"
      using a by (simp add: call_handler_def)
    have lg: "snd (call_handler (handler t) (url t) (scrape_context t) r lg) = lg" for r lg
      using a by (simp add: call_handler_def)
    show "fst (tor_worker_step curl i (Got t) s) = Died e
        \<and> scrape_queue (snd (tor_worker_step curl i (Got t) s)) = scrape_queue s
        \<and> logger (snd (tor_worker_step curl i (Got t) s)) =
            snd (query curl (url t) ?port
                  (logger s @ [(DEBUG, ''Scraping _tor_worker:'' @ str_int (int i) @ '' url:'' @ url t, [])]))"
      unfolding step_handler_raises [OF so h] lg by simp
  qed
  have c2: "j < length ths \<and> ths ! j = Died e' \<longrightarrow> fst ?R ! j = Died e'"
    using run_threads_died_stays [of j ths e' curl sched s] by blast
  have c3: "\<forall>th \<in> set (fst ?R). th = Finished \<or> (\<exists>x. th = Died x)"
    by (rule run_threads_ended)
  have c4: "Finished \<notin> set ths \<and> Finished \<in> set (fst ?R) \<longrightarrow> scrape_queue (snd ?R) = []"
    using run_threads_finished_empty [of ths s curl sched] by blast
  have c5: "map snd (dequeued (snd ?R)) @ scrape_queue (snd ?R) = map snd (dequeued s) @ scrape_queue s"
    by (rule run_threads_fifo)
  have c6: "run launch curl sched ?new = (None, s')
      \<longrightarrow> (\<forall>k < nat (thread_count cfg). \<exists>out. Thread_ended k out \<in> set (events s'))
          \<and> (\<forall>k x. Thread_ended k (Some x) \<in> set (events s') \<longrightarrow> own_fault s' k x)
          \<and> ((\<exists>k. Thread_ended k None \<in> set (events s')) \<longrightarrow> scrape_queue s' = [])
          \<and> (\<forall>k < nat (thread_count cfg). (\<forall>x. \<not> own_fault s' k x)
                \<longrightarrow> Thread_ended k None \<in> set (events s') \<and> scrape_queue s' = [])"
  proof
    assume run: "run launch curl sched ?new = (None, s')"
    have init: "events ?new = []" "config ?new = cfg"
      by (simp_all add: add_scrapes_other_fields TorScraper_def)
    have ended: "\<forall>k < nat (thread_count cfg). \<exists>out. Thread_ended k out \<in> set (events s')"
      using run_ended [OF run] init(2) by simp
    have own: "\<forall>k x. Thread_ended k (Some x) \<in> set (events s') \<longrightarrow> own_fault s' k x"
      using run_own_fault [OF run init(1)] by blast
    have brk: "(\<exists>k. Thread_ended k None \<in> set (events s')) \<longrightarrow> scrape_queue s' = []"
      using run_break_empty [OF run init(1)] by blast
    have sib: "\<forall>k < nat (thread_count cfg). (\<forall>x. \<not> own_fault s' k x)
                \<longrightarrow> Thread_ended k None \<in> set (events s') \<and> scrape_queue s' = []"
    proof (intro allI impI)
      fix k
      assume k: "k < nat (thread_count cfg)" and clean: "\<forall>x. \<not> own_fault s' k x"
      from ended k obtain out where out: "Thread_ended k out \<in> set (events s')" by blast
      have "out = None"
      proof (cases out)
        case (Some x)
        then have "own_fault s' k x" using own out by blast
        then show ?thesis using clean by blast
      qed simp
      then have "Thread_ended k None \<in> set (events s')" using out by simp
      then show "Thread_ended k None \<in> set (events s') \<and> scrape_queue s' = []"
        using brk by blast
    qed
    show "(\<forall>k < nat (thread_count cfg). \<exists>out. Thread_ended k out \<in> set (events s'))
          \<and> (\<forall>k x. Thread_ended k (Some x) \<in> set (events s') \<longrightarrow> own_fault s' k x)
          \<and> ((\<exists>k. Thread_ended k None \<in> set (events s')) \<longrightarrow> scrape_queue s' = [])
          \<and> (\<forall>k < nat (thread_count cfg). (\<forall>x. \<not> own_fault s' k x)
                \<longrightarrow> Thread_ended k None \<in> set (events s') \<and> scrape_queue s' = [])"
      using ended own brk sib by (intro conjI)
  qed
  show ?thesis
    using c1 c2 c3 c4 c5 c6 by (intro conjI)
qed

theorem raising_handler_ends_worker_witness:
  "fst (tor_worker_step fetch_ok 0 (Got \<lparr>url = ''a'', scrape_context = None, handler = raising\<rparr>)
          (add_scrapes [(''b'', None, None)] (TorScraper (small_config 2) :: unit tor_scraper)))
     = Died (Handler_exn ''ValueError'')
   \<and> fst (run_threads fetch_ok [] [Died (Handler_exn ''ValueError''), Starting]
            (add_scrapes [(''b'', None, None)] (TorScraper (small_config 2) :: unit tor_scraper))) ! 0
       = Died (Handler_exn ''ValueError'')
   \<and> scrape_queue (snd (run_threads fetch_ok [] [Died (Handler_exn ''ValueError''), Starting]
            (add_scrapes [(''b'', None, None)] (TorScraper (small_config 2) :: unit tor_scraper)))) = []
   \<and> own_fault (snd (run launch_ok fetch_ok []
            (add_scrapes [(''a'', None, Some raising), (''b'', None, None), (''c'', None, None)]
               (TorScraper (small_config 2))))) 0 (Handler_exn ''ValueError'')
   \<and> Thread_ended 1 None \<in> set (events (snd (run launch_ok fetch_ok []
            (add_scrapes [(''a'', None, Some raising), (''b'', None, None), (''c'', None, None)]
               (TorScraper (small_config 2))))))
   \<and> scrape_queue (snd (run launch_ok fetch_ok []
            (add_scrapes [(''a'', None, Some raising), (''b'', None, None), (''c'', None, None)]
               (TorScraper (small_config 2))))) = []
   \<and> map (\<lambda>(k, task, r). (k, url task)) (handled (snd (run launch_ok fetch_ok []
            (add_scrapes [(''a'', None, Some raising), (''b'', None, None), (''c'', None, None)]
               (TorScraper (small_config 2))))))
       = [(0, ''a''), (1, ''b''), (1, ''c'')]"
proof -
  let ?t = "\<lparr>url = ''a'', scrape_context = None, handler = raising\<rparr> :: unit scrape"
  let ?e = "Handler_exn ''ValueError''"
  let ?s = "add_scrapes [(''b'', None, None)] (TorScraper (small_config 2)) :: unit tor_scraper"
  let ?ths = "[Died ?e, Starting] :: unit thread list"
  let ?R = "run_threads fetch_ok [] ?ths ?s"
  let ?calls = "[(''a'', None, Some raising), (''b'', None, None), (''c'', None, None)]"
  let ?run = "run launch_ok fetch_ok [] (add_scrapes ?calls (TorScraper (small_config 2)))"
  have h: "handler ?t = User_handler (\<lambda>u ctx result. Some ?e)"
    by (simp add: raising_def)
  have so: "setopt fetch_ok (url ?t) (socks_port_offset (config ?s) + int 0) = None"
    by (simp add: fetch_ok_def)
  have "list_ex (\<lambda>th. case th of Finished \<Rightarrow> True | _ \<Rightarrow> False) (fst ?R)"
    by code_simp
  then obtain th where th: "th \<in> set (fst ?R)" "case th of Finished \<Rightarrow> True | _ \<Rightarrow> False"
    by (auto simp: list_ex_iff)
  from th(2) have "th = Finished" by (cases th) simp_all
  with th(1) have "Finished \<in> set (fst ?R)" by simp
  then have fin: "Finished \<notin> set ?ths \<and> Finished \<in> set (fst ?R)" by simp
  have "fst ?run = None" by code_simp
  then have ret: "?run = (None, snd ?run)" by (simp add: prod_eq_iff)
  note facts = raising_handler_ends_worker
            [of ?t "\<lambda>u ctx result. Some ?e" fetch_ok ?s 0 ?e 0 ?ths ?e "[]" launch_ok ?calls
                "small_config 2" "snd ?run"]
  note on_run = facts [THEN conjunct2, THEN conjunct2, THEN conjunct2, THEN conjunct2, THEN conjunct2,
                       THEN mp, OF ret]
  have two: "1 < nat (thread_count (small_config 2))" by (simp add: small_config_def)
  have w1: "fst (tor_worker_step fetch_ok 0 (Got ?t) ?s) = Died ?e"
    using facts [THEN conjunct1] h so by simp
  have w2: "fst ?R ! 0 = Died ?e"
    using facts [THEN conjunct2, THEN conjunct1] by simp
  have w3: "scrape_queue (snd ?R) = []"
    using facts [THEN conjunct2, THEN conjunct2, THEN conjunct2, THEN conjunct1] fin by blast
  have died: "Thread_ended 0 (Some ?e) \<in> set (events (snd ?run))" by code_simp
  have w4: "own_fault (snd ?run) 0 ?e"
    using on_run [THEN conjunct2, THEN conjunct1] died by blast
  have def: "list_all (\<lambda>(k, task, r). k = 1 \<longrightarrow> (case handler task of Default_handler \<Rightarrow> True | _ \<Rightarrow> False))
               (handled (snd ?run))"
    by code_simp
  have none: "length (aborted (snd ?run)) = 0" by code_simp
  have clean: "\<forall>x. \<not> own_fault (snd ?run) 1 x"
  proof (intro allI notI)
    fix x
    assume "own_fault (snd ?run) 1 x"
    then obtain task r where in_h: "(1, task, r) \<in> set (handled (snd ?run))"
      and raised: "fst (call_handler (handler task) (url task) (scrape_context task) r []) = Some x"
      using none unfolding own_fault_def by auto
    from def in_h have "case handler task of Default_handler \<Rightarrow> True | _ \<Rightarrow> False"
      by (auto simp: list_all_iff)
    then have "handler task = Default_handler"
      by (cases "handler task") simp_all
    then show False using raised by (simp add: call_handler_def)
  qed
  have w5: "Thread_ended 1 None \<in> set (events (snd ?run)) \<and> scrape_queue (snd ?run) = []"
    using on_run [THEN conjunct2, THEN conjunct2, THEN conjunct2] clean two by blast
  have w6: "map (\<lambda>(k, task, r). (k, url task)) (handled (snd ?run)) = [(0, ''a''), (1, ''b''), (1, ''c'')]"
    by code_simp
  show ?thesis using w1 w2 w3 w4 w5 w6 by (intro conjI) simp_all
qed

text \<open>
  C4 as stated fails: with one worker and three tasks of which the second has a handler
  that raises, the worker does not go on to the third task, which stays in the queue,
  and the last log record is the line written before the second fetch.
\<close>

theorem raising_handler_stops_worker:
  "fst (run launch_ok fetch_ok []
          (add_scrapes [(''a'', None, None), (''b'', None, Some raising), (''c'', None, None)]
             (TorScraper (small_config 1)))) = None
   \<and> map (url \<circ> fst \<circ> snd) (handled (snd (run launch_ok fetch_ok []
          (add_scrapes [(''a'', None, None), (''b'', None, Some raising), (''c'', None, None)]
             (TorScraper (small_config 1)))))) = [''a'', ''b'']
   \<and> map url (scrape_queue (snd (run launch_ok fetch_ok []
          (add_scrapes [(''a'', None, None), (''b'', None, Some raising), (''c'', None, None)]
             (TorScraper (small_config 1)))))) = [''c'']
   \<and> last (logger (snd (run launch_ok fetch_ok []
          (add_scrapes [(''a'', None, None), (''b'', None, Some raising), (''c'', None, None)]
             (TorScraper (small_config 1)))))) = (DEBUG, ''Scraping _tor_worker:0 url:b'', [])"
  by code_simp

subsection \<open>C5\<close>

text \<open>
  C5: \<open>run\<close> launches the processes for the indices 0, 1, ... in this order, all
  \<open>thread_count\<close> of them when it returns, and the process of index \<open>i\<close> is configured
  with the socks port \<open>socks_port_offset + i\<close>, the control port
  \<open>control_port_offset + i\<close> (both written as decimal strings) and the data directory
  \<open>data_directory\<close> followed by \<open>str(i)\<close>, which differs for different indices. With
  \<open>thread_count = 3\<close> and the offsets 9250 and 9350 these are the ports 9250, 9251, 9252
  and 9350, 9351, 9352 and the directories ending in 0, 1 and 2.
\<close>

theorem launched_circuits:
  "(\<exists>k\<le>nat (thread_count (config s)).
      launched (snd (run launch curl sched s)) =
        launched s @ map (\<lambda>i. (tor_cmd (config s), torrc_of (config s) i)) [0..<k]
      \<and> (fst (run launch curl sched s) = None \<longrightarrow> k = nat (thread_count (config s))))
   \<and> int_of_str (SocksPort (torrc_of cfg i)) = socks_port_offset cfg + int i
   \<and> int_of_str (ControlPort (torrc_of cfg i)) = control_port_offset cfg + int i
   \<and> DataDirectory (torrc_of cfg i) = data_directory cfg @ str_int (int i)
   \<and> (DataDirectory (torrc_of cfg i) = DataDirectory (torrc_of cfg j) \<longleftrightarrow> i = j)
   \<and> map (torrc_of \<lparr>thread_count = 3, socks_port_offset = 9250, control_port_offset = 9350,
                   data_directory = d, tor_cmd = c, public_ip_url = p\<rparr>) [0..<nat 3]
       = [\<lparr>SocksPort = ''9250'', ControlPort = ''9350'', DataDirectory = d @ ''0''\<rparr>,
          \<lparr>SocksPort = ''9251'', ControlPort = ''9351'', DataDirectory = d @ ''1''\<rparr>,
          \<lparr>SocksPort = ''9252'', ControlPort = ''9352'', DataDirectory = d @ ''2''\<rparr>]"
proof -
  have c1: "\<exists>k\<le>nat (thread_count (config s)).
      launched (snd (run launch curl sched s)) =
        launched s @ map (\<lambda>i. (tor_cmd (config s), torrc_of (config s) i)) [0..<k]
      \<and> (fst (run launch curl sched s) = None \<longrightarrow> k = nat (thread_count (config s)))"
    by (rule run_launched)
  have c2: "int_of_str (SocksPort (torrc_of cfg i)) = socks_port_offset cfg + int i"
    by (simp add: torrc_of_def int_of_str_str_int)
  have c3: "int_of_str (ControlPort (torrc_of cfg i)) = control_port_offset cfg + int i"
    by (simp add: torrc_of_def int_of_str_str_int)
  have c4: "DataDirectory (torrc_of cfg i) = data_directory cfg @ str_int (int i)"
    by (simp add: torrc_of_def)
  have c5: "DataDirectory (torrc_of cfg i) = DataDirectory (torrc_of cfg j) \<longleftrightarrow> i = j"
    by (simp add: torrc_of_def str_int_inj)
  have "[0..<nat 3] = [0, 1, 2]" by (simp add: upt_rec)
  then have c6: "map (torrc_of \<lparr>thread_count = 3, socks_port_offset = 9250, control_port_offset = 9350,
                   data_directory = d, tor_cmd = c, public_ip_url = p\<rparr>) [0..<nat 3]
       = [\<lparr>SocksPort = ''9250'', ControlPort = ''9350'', DataDirectory = d @ ''0''\<rparr>,
          \<lparr>SocksPort = ''9251'', ControlPort = ''9351'', DataDirectory = d @ ''1''\<rparr>,
          \<lparr>SocksPort = ''9252'', ControlPort = ''9352'', DataDirectory = d @ ''2''\<rparr>]"
    using torrc_of_example [of d c p] by (simp only:)
  show ?thesis using c1 c2 c3 c4 c5 c6 by (intro conjI)
qed

theorem launched_circuits_witness:
  "launched (snd (run launch_ok fetch_ok [] (TorScraper (small_config 3) :: unit tor_scraper)))
   = [(''tor'', \<lparr>SocksPort = ''20'', ControlPort = ''30'', DataDirectory = ''tor_data/0''\<rparr>),
      (''tor'', \<lparr>SocksPort = ''21'', ControlPort = ''31'', DataDirectory = ''tor_data/1''\<rparr>),
      (''tor'', \<lparr>SocksPort = ''22'', ControlPort = ''32'', DataDirectory = ''tor_data/2''\<rparr>)]"
proof -
  let ?s = "TorScraper (small_config 3) :: unit tor_scraper"
  let ?run = "run launch_ok fetch_ok [] ?s"
  have ret: "fst ?run = None" by code_simp
  have cfg: "config ?s = small_config 3" "launched ?s = []" "nat (thread_count (small_config 3)) = 3"
    by (simp_all add: TorScraper_def small_config_def)
  from launched_circuits [of ?s launch_ok fetch_ok "[]", THEN conjunct1]
  obtain k where k: "k \<le> nat (thread_count (config ?s)) \<and>
     launched (snd ?run) = launched ?s @ map (\<lambda>i. (tor_cmd (config ?s), torrc_of (config ?s) i)) [0..<k]
     \<and> (fst ?run = None \<longrightarrow> k = nat (thread_count (config ?s)))"
    ..
  have k3: "k = 3" using k ret cfg by simp
  have upt: "[0..<3] = [0, 1, 2]" by (simp add: upt_rec)
  have "launched (snd ?run) = map (\<lambda>i. (tor_cmd (small_config 3), torrc_of (small_config 3) i)) [0, 1, 2]"
    using k cfg unfolding k3 upt by simp
  then show ?thesis
    by (simp add: small_config_def torrc_of_def str_int_def str_nat.simps digit_def)
qed

subsection \<open>C6\<close>

text \<open>
  C6: the public IP query is fatal when it fails. \<open>_query\<close> logs the error and returns
  \<open>None\<close>, and \<open>'Public IP: ' + None\<close> raises \<open>TypeError\<close> out of \<open>run\<close>, with the process
  started and not killed; and a configuration without the key \<open>public_ip_url\<close> raises
  \<open>KeyError\<close>, although the docstring calls the key optional.
\<close>

theorem failed_public_ip_query_aborts_run:
  "fst (run launch_ok fetch_fails []
          (TorScraper ((small_config 1)\<lparr>public_ip_url := Some ''https://api.ipify.org''\<rparr>) :: unit tor_scraper))
     = Some TypeError
   \<and> tor_processes (snd (run launch_ok fetch_fails []
          (TorScraper ((small_config 1)\<lparr>public_ip_url := Some ''https://api.ipify.org''\<rparr>) :: unit tor_scraper)))
     = [0]
   \<and> killed (snd (run launch_ok fetch_fails []
          (TorScraper ((small_config 1)\<lparr>public_ip_url := Some ''https://api.ipify.org''\<rparr>) :: unit tor_scraper)))
     = []
   \<and> fst (run launch_ok fetch_ok []
          (TorScraper ((small_config 1)\<lparr>public_ip_url := None\<rparr>) :: unit tor_scraper))
     = Some (KeyError ''public_ip_url'')"
  by code_simp

subsection \<open>C7\<close>

text \<open>
  C7, amended: on a failed fetch the handler is called with \<open>None\<close> as its result; the
  URL and the cause go to the logger only, in the error record of \<open>_query\<close>. On success
  the handler is called with the raw response bytes. (When the calls before the \<open>try\<close>
  of \<open>_query\<close> raise, \<open>_query\<close> returns nothing: no handler is called and the exception
  ends the worker.)
\<close>

theorem fetch_result_passed_to_handler:
  "(case setopt curl (url t) (socks_port_offset (config s) + int i) of
      Some e \<Rightarrow>
        query curl (url t) (socks_port_offset (config s) + int i) lg = (Inl e, lg)
        \<and> handled (snd (tor_worker_step curl i (Got t) s)) = handled s
        \<and> fst (tor_worker_step curl i (Got t) s) = Died e
    | None \<Rightarrow>
       (case perform curl (url t) (socks_port_offset (config s) + int i) of
          Inl exc \<Rightarrow>
            query curl (url t) (socks_port_offset (config s) + int i) lg
              = (Inr None, lg @ [(ERROR, ''Unable to reach %s (%s)'', [Str (url t), Exc exc])])
            \<and> handled (snd (tor_worker_step curl i (Got t) s)) = handled s @ [(i, t, None)]
            \<and> fst (tor_worker_step curl i (Got t) s)
                = (case handler t of
                     Default_handler \<Rightarrow> Looping
                   | User_handler f \<Rightarrow>
                       (case f (url t) (scrape_context t) None of None \<Rightarrow> Looping | Some e \<Rightarrow> Died e))
        | Inr body \<Rightarrow>
            query curl (url t) (socks_port_offset (config s) + int i) lg = (Inr (Some body), lg)
            \<and> handled (snd (tor_worker_step curl i (Got t) s)) = handled s @ [(i, t, Some body)]
            \<and> fst (tor_worker_step curl i (Got t) s)
                = (case handler t of
                     Default_handler \<Rightarrow> Looping
                   | User_handler f \<Rightarrow>
                       (case f (url t) (scrape_context t) (Some body) of None \<Rightarrow> Looping | Some e \<Rightarrow> Died e))))"
proof (cases "setopt curl (url t) (socks_port_offset (config s) + int i)")
  case (Some e)
  then show ?thesis
    by (simp add: query_def Let_def)
next
  case None
  then show ?thesis
    by (cases "perform curl (url t) (socks_port_offset (config s) + int i)")
       (simp_all add: query_def Let_def call_handler_def split: handler.splits option.splits)
qed

theorem fetch_result_passed_to_handler_witness:
  "handled (snd (tor_worker_step fetch_bad 0
       (Got \<lparr>url = ''bad'', scrape_context = None, handler = Default_handler\<rparr>)
       (TorScraper (small_config 1) :: unit tor_scraper)))
     = [(0, \<lparr>url = ''bad'', scrape_context = None, handler = Default_handler\<rparr>, None)]
   \<and> handled (snd (tor_worker_step fetch_bad 0
       (Got \<lparr>url = ''a'', scrape_context = None, handler = Default_handler\<rparr>)
       (TorScraper (small_config 1) :: unit tor_scraper)))
     = [(0, \<lparr>url = ''a'', scrape_context = None, handler = Default_handler\<rparr>, Some ''<html>a</html>'')]"
proof -
  let ?s = "TorScraper (small_config 1) :: unit tor_scraper"
  let ?bad = "\<lparr>url = ''bad'', scrape_context = None, handler = Default_handler\<rparr> :: unit scrape"
  let ?a = "\<lparr>url = ''a'', scrape_context = None, handler = Default_handler\<rparr> :: unit scrape"
  have h: "handled ?s = []" by (simp add: TorScraper_def)
  have so_bad: "setopt fetch_bad (url ?bad) (socks_port_offset (config ?s) + int 0) = None"
    by (simp add: fetch_bad_def)
  have so_a: "setopt fetch_bad (url ?a) (socks_port_offset (config ?s) + int 0) = None"
    by (simp add: fetch_bad_def)
  have bad: "perform fetch_bad (url ?bad) (socks_port_offset (config ?s) + int 0)
             = Inl (Curl_error 28 ''Timeout was reached'')"
    by (simp add: fetch_bad_def)
  have a: "perform fetch_bad (url ?a) (socks_port_offset (config ?s) + int 0) = Inr ''<html>a</html>''"
    by (simp add: fetch_bad_def)
  note on_bad = fetch_result_passed_to_handler
                  [of fetch_bad ?bad ?s 0 "[]", unfolded so_bad option.case bad sum.case]
  note on_a = fetch_result_passed_to_handler
                  [of fetch_bad ?a ?s 0 "[]", unfolded so_a option.case a sum.case]
  have "handled (snd (tor_worker_step fetch_bad 0 (Got ?bad) ?s)) = [(0, ?bad, None)]"
    using on_bad [THEN conjunct2, THEN conjunct1] by (simp only: h append_Nil)
  moreover have "handled (snd (tor_worker_step fetch_bad 0 (Got ?a) ?s)) = [(0, ?a, Some ''<html>a</html>'')]"
    using on_a [THEN conjunct2, THEN conjunct1] by (simp only: h append_Nil)
  ultimately show ?thesis by (intro conjI)
qed

text \<open>
  C7 as stated fails: two fetches of different URLs that fail for different reasons (a
  refused connection, a timeout) both give \<open>None\<close>, and \<open>None\<close> is what the handler of a
  task whose fetch failed is called with; the value carries neither the cause nor the
  URL.
\<close>

theorem failed_fetch_result_is_none:
  "fst (query fetch_fails ''http://a/'' 20 ([] :: unit log_record list)) = Inr None
   \<and> fst (query fetch_bad ''bad'' 21 ([] :: unit log_record list)) = Inr None
   \<and> map (snd \<circ> snd) (handled (snd (run launch_ok fetch_fails []
          (add_scrapes [(''http://a/'', None, None)] (TorScraper (small_config 1) :: unit tor_scraper)))))
     = [None]"
  by code_simp

subsection \<open>C8\<close>

text \<open>
  C8: \<open>put\<close> appends at the tail and \<open>get(False)\<close> takes the head or gives \<open>Empty\<close>
  at once. Over all workers the tasks taken, in the order they were taken, followed by
  the tasks still queued, are the queue as it was: tasks leave in enqueue order, and each
  one is taken once, by one worker. A worker ends by \<open>break\<close> exactly when \<open>get(False)\<close>
  finds the queue empty.
\<close>

theorem scrape_queue_is_fifo:
  "put x q = q @ [x]
   \<and> get_nowait ([] :: 'a list) = Inl Empty
   \<and> get_nowait (x # q) = Inr (x, q)
   \<and> map snd (dequeued (snd (run_threads curl sched ths s))) @ scrape_queue (snd (run_threads curl sched ths s))
       = map snd (dequeued s) @ scrape_queue s
   \<and> map snd (dequeued (snd (run launch curl sched s))) @ scrape_queue (snd (run launch curl sched s))
       = map snd (dequeued s) @ scrape_queue s
   \<and> (fst (tor_worker_step curl i th s) = Finished \<longleftrightarrow> th = Finished \<or> th = Looping \<and> scrape_queue s = [])"
proof -
  have c4: "map snd (dequeued (snd (run_threads curl sched ths s))) @ scrape_queue (snd (run_threads curl sched ths s))
       = map snd (dequeued s) @ scrape_queue s"
    by (rule run_threads_fifo)
  have c5: "map snd (dequeued (snd (run launch curl sched s))) @ scrape_queue (snd (run launch curl sched s))
       = map snd (dequeued s) @ scrape_queue s"
    using run_tasks [of launch curl sched s "fst (run launch curl sched s)" "snd (run launch curl sched s)"]
    by simp
  have c6: "fst (tor_worker_step curl i th s) = Finished \<longleftrightarrow> th = Finished \<or> th = Looping \<and> scrape_queue s = []"
    by (cases th) (auto simp: get_nowait_def Let_def split: step_splits)
  show ?thesis
    using c4 c5 c6 by (simp add: put_def get_nowait_def)
qed

theorem scrape_queue_is_fifo_witness:
  "map (\<lambda>(i, t). (i, url t)) (dequeued (snd (run launch_ok fetch_ok [0, 1, 1, 0, 1, 1, 0]
          (add_scrapes [(''a'', None, None), (''b'', None, None), (''c'', None, None)]
             (TorScraper (small_config 2) :: unit tor_scraper)))))
     = [(1, ''a''), (0, ''b''), (1, ''c'')]
   \<and> map snd (dequeued (snd (run launch_ok fetch_ok [0, 1, 1, 0, 1, 1, 0]
          (add_scrapes [(''a'', None, None), (''b'', None, None), (''c'', None, None)]
             (TorScraper (small_config 2) :: unit tor_scraper)))))
     = scrape_queue (add_scrapes [(''a'', None, None), (''b'', None, None), (''c'', None, None)]
             (TorScraper (small_config 2) :: unit tor_scraper))"
proof -
  let ?s = "add_scrapes [(''a'', None, None), (''b'', None, None), (''c'', None, None)]
             (TorScraper (small_config 2) :: unit tor_scraper)"
  let ?run = "run launch_ok fetch_ok [0, 1, 1, 0, 1, 1, 0] ?s"
  have w1: "map (\<lambda>(i, t). (i, url t)) (dequeued (snd ?run)) = [(1, ''a''), (0, ''b''), (1, ''c'')]"
    by code_simp
  have e: "scrape_queue (snd ?run) = []" by code_simp
  have d: "dequeued ?s = []" by (simp add: add_scrapes_other_fields TorScraper_def)
  have w2: "map snd (dequeued (snd ?run)) = scrape_queue ?s"
    using scrape_queue_is_fifo
            [where s = ?s and launch = launch_ok and curl = fetch_ok and sched = "[0, 1, 1, 0, 1, 1, 0]",
             THEN conjunct2, THEN conjunct2, THEN conjunct2, THEN conjunct2, THEN conjunct1] e d
    by simp
  show ?thesis using w1 w2 by (intro conjI)
qed

subsection \<open>C9\<close>

text \<open>
  C9: the message handler is not total. A line that has the marker \<open>Bootstrapped \<close> but
  no \<open>[notice] \<close> makes \<open>rsplit\<close> return one piece, and the subscript \<open>[1]\<close> raises
  \<open>IndexError\<close>.
\<close>

theorem tor_init_msg_handler_index_error:
  "tor_init_msg_handler ''Bootstrapped 100%: Done'' ([] :: unit log_record list) = Inl IndexError"
  by (simp add: tor_init_msg_handler_raises_iff sublist_code)

subsection \<open>C10\<close>

text \<open>
  C10: \<open>add_scrape\<close> appends one record of the fields url, context and handler, with
  the caller's url and context as given and with \<open>_default_handler\<close> in place of a
  handler that is absent or \<open>None\<close>; so the queue built by any calls on a new scraper
  holds exactly these records, in call order, each with a callable handler. Called, the
  default handler logs url, context and result and returns.
\<close>

theorem add_scrape_task_record:
  "scrape_queue (add_scrape u ctx h s) =
     scrape_queue s @ [\<lparr>url = u, scrape_context = ctx,
                        handler = (case h of None \<Rightarrow> Default_handler | Some f \<Rightarrow> f)\<rparr>]
   \<and> scrape_queue (add_scrapes calls (TorScraper cfg)) =
       map (\<lambda>(u, ctx, h). \<lparr>url = u, scrape_context = ctx,
              handler = (case h of None \<Rightarrow> Default_handler | Some f \<Rightarrow> f)\<rparr>) calls
   \<and> call_handler Default_handler u ctx r lg =
       (None, lg @ [(DEBUG, ''url: %s'', [Str u]), (DEBUG, ''context: %s'', [Context ctx]),
                    (DEBUG, ''result: %s'', [Result r])])"
  by (simp add: scrape_queue_add_scrape scrape_queue_add_scrapes TorScraper_def
        call_handler_def default_handler_def)

end
